theory Spec2Isabelle
  imports Main "HOL-Library.Sublist" "HOL-Library.AList"
begin

section \<open>Python values shared by both integrations\<close>

text \<open>
  Exceptions of the Python source are values.  \<open>KeyError k\<close> is a failed subscript
  \<open>d[k]\<close>, \<open>ValueError\<close> comes from \<open>str.split\<close>, tuple unpacking and
  \<open>datetime.strptime\<close>, \<open>TypeError\<close> from comparing \<open>None\<close> with a
  \<open>datetime\<close>.  \<open>CollaboratorError\<close> is whatever the HTTP client, the session
  or the minting call raises on its own; the code never catches it.
\<close>

datatype py_error =
    KeyError string
  | ValueError
  | TypeError
  | CollaboratorError string

type_synonym 'a result = "py_error + 'a"

section \<open>GitHub client: \<open>src/sentry/integrations/github/client.py\<close>\<close>

subsection \<open>Responses, requests and the world the client acts on\<close>

text \<open>
  A response of \<open>ApiClient.get\<close>: \<open>response['repositories']\<close> reads \<open>body\<close>
  (a missing key raises \<open>KeyError\<close>), \<open>response.headers.get('Link')\<close> reads
  \<open>headers\<close>, and \<open>getattr(response, 'rel', {})\<close> reads \<open>rel\<close>, where
  \<open>None\<close> stands for a response object without that attribute.
\<close>

record 'r response =
  body :: "string \<rightharpoonup> 'r list"
  headers :: "string \<rightharpoonup> string"
  rel :: "(string \<rightharpoonup> string) option"

text \<open>A call \<open>client_mixin.get(path, params=...)\<close>; \<open>None\<close> is the default \<open>params\<close>.\<close>

type_synonym gh_request = "string \<times> (string \<times> nat) list option"

text \<open>
  The HTTP collaborator is a deterministic machine with a state of its own: given
  its state and a request it answers (or raises) and moves on.  Every provider
  behaviour, also one that depends on the history of requests, is such a machine.
\<close>

type_synonym ('s, 'q, 'a) collaborator = "'s \<Rightarrow> 'q \<Rightarrow> 'a result \<times> 's"

record 's gh_world =
  gh_remote :: 's
  gh_requests :: "gh_request list"
  stderr :: "string list"

definition client_get ::
  "('s, gh_request, 'r response) collaborator \<Rightarrow> gh_request \<Rightarrow> 's gh_world
    \<Rightarrow> 'r response result \<times> 's gh_world" where
  "client_get get req w =
     (case get (gh_remote w) req of
        (r, s') \<Rightarrow> (r, w\<lparr>gh_remote := s', gh_requests := gh_requests w @ [req]\<rparr>))"

text \<open>A provider that answers from a fixed list of responses, whatever is asked.\<close>

definition scripted :: "('a list, 'q, 'a) collaborator" where
  "scripted rs req =
     (case rs of
        [] \<Rightarrow> (Inl (CollaboratorError ''no response''), [])
      | r # rest \<Rightarrow> (Inr r, rest))"

subsection \<open>\<open>_get_rel_next\<close>\<close>

definition MAX_ITERATIONS :: nat where
  "MAX_ITERATIONS = 100"

text \<open>
  \<open>_BAD_NEXT_REL.format(link, next_url, base_url)\<close>: the three fields are
  written with \<open>{!r}\<close>, Python's builtin \<open>repr\<close>, which is a parameter here
  (it is applied to the \<open>Link\<close> header, which may be \<open>None\<close>, and to two strings).
\<close>

definition BAD_NEXT_REL ::
  "(string option \<Rightarrow> string) \<Rightarrow> string option \<Rightarrow> string \<Rightarrow> string \<Rightarrow> string" where
  "BAD_NEXT_REL repr link next_url base_url =
     ''Link header '' @ repr link @ '' included rel=\"next\" '' @ repr (Some next_url)
       @ '' that did not start with base URL '' @ repr (Some base_url)"

text \<open>
  \<open>s.split(sep, 1)\<close> cuts \<open>s\<close> at the leftmost occurrence of \<open>sep\<close>;
  \<open>find_sep\<close> is that search, for a non-empty separator.
\<close>

fun find_sep :: "string \<Rightarrow> string \<Rightarrow> (string \<times> string) option" where
  "find_sep sep [] = None"
| "find_sep sep (c # cs) =
     (if prefix sep (c # cs) then Some ([], drop (length sep) (c # cs))
      else (case find_sep sep cs of
              None \<Rightarrow> None
            | Some (before, rest) \<Rightarrow> Some (c # before, rest)))"

text \<open>
  \<open>_, relative_url = next_url.split(base_url, 1)\<close>: an empty separator raises
  \<open>ValueError\<close>, and so does unpacking the one-element list that \<open>split\<close>
  returns when the separator does not occur.
\<close>

definition split_once :: "string \<Rightarrow> string \<Rightarrow> (string \<times> string) result" where
  "split_once s sep =
     (if sep = [] then Inl ValueError
      else (case find_sep sep s of
              None \<Rightarrow> Inl ValueError
            | Some p \<Rightarrow> Inr p))"

definition get_rel_next ::
  "(string option \<Rightarrow> string) \<Rightarrow> string \<Rightarrow> 'r response \<Rightarrow> 's gh_world
    \<Rightarrow> string option result \<times> 's gh_world" where
  "get_rel_next repr base_url response w =
     (let rel_map = (case rel response of None \<Rightarrow> Map.empty | Some m \<Rightarrow> m) in
      case rel_map ''next'' of
        None \<Rightarrow> (Inr None, w)
      | Some next_url \<Rightarrow>
          if \<not> prefix base_url next_url then
            (Inr None,
             w\<lparr>stderr := stderr w @ [BAD_NEXT_REL repr (headers response ''Link'') next_url base_url]\<rparr>)
          else
            (case split_once next_url base_url of
               Inl e \<Rightarrow> (Inl e, w)
             | Inr (_, relative_url) \<Rightarrow> (Inr (Some relative_url), w)))"

subsection \<open>\<open>_paging_get_repositories\<close>\<close>

text \<open>\<open>all_repositories.extend(response['repositories'])\<close>\<close>

definition extend_repositories :: "'r list \<Rightarrow> 'r response \<Rightarrow> 'r list result" where
  "extend_repositories all_repositories response =
     (case body response ''repositories'' of
        None \<Rightarrow> Inl (KeyError ''repositories'')
      | Some rs \<Rightarrow> Inr (all_repositories @ rs))"

text \<open>
  The \<open>for _ in range(_MAX_ITERATIONS)\<close> loop, with the iterations that are left
  as the first argument: it ends when the range is used up or at the \<open>break\<close>.
\<close>

fun paging_loop ::
  "nat \<Rightarrow> ('s, gh_request, 'r response) collaborator \<Rightarrow> (string option \<Rightarrow> string) \<Rightarrow> string
    \<Rightarrow> string option \<Rightarrow> 'r list \<Rightarrow> 's gh_world \<Rightarrow> 'r list result \<times> 's gh_world" where
  "paging_loop 0 get repr base_url next_url all_repositories w = (Inr all_repositories, w)"
| "paging_loop (Suc n) get repr base_url next_url all_repositories w =
     (case next_url of
        None \<Rightarrow> (Inr all_repositories, w)
      | Some u \<Rightarrow>
          (case client_get get (u, None) w of
             (Inl e, w1) \<Rightarrow> (Inl e, w1)
           | (Inr response, w1) \<Rightarrow>
               (case extend_repositories all_repositories response of
                  Inl e \<Rightarrow> (Inl e, w1)
                | Inr all' \<Rightarrow>
                    (case get_rel_next repr base_url response w1 of
                       (Inl e, w2) \<Rightarrow> (Inl e, w2)
                     | (Inr next', w2) \<Rightarrow> paging_loop n get repr base_url next' all' w2))))"

definition paging_get_repositories ::
  "('s, gh_request, 'r response) collaborator \<Rightarrow> (string option \<Rightarrow> string) \<Rightarrow> string
    \<Rightarrow> 's gh_world \<Rightarrow> 'r list result \<times> 's gh_world" where
  "paging_get_repositories get repr base_url w =
     (case client_get get (''/installation/repositories'', Some [(''per_page'', 100)]) w of
        (Inl e, w1) \<Rightarrow> (Inl e, w1)
      | (Inr response, w1) \<Rightarrow>
          (case extend_repositories [] response of
             Inl e \<Rightarrow> (Inl e, w1)
           | Inr all_repositories \<Rightarrow>
               (case get_rel_next repr base_url response w1 of
                  (Inl e, w2) \<Rightarrow> (Inl e, w2)
                | (Inr next_url, w2) \<Rightarrow>
                    paging_loop MAX_ITERATIONS get repr base_url next_url all_repositories w2)))"

section \<open>Slack notify action: \<open>src/sentry/integrations/slack/notify_action.py\<close>\<close>

subsection \<open>Parameter dictionaries on a heap\<close>

text \<open>
  The parameter dictionaries are mutable objects that the caller and the traversal
  both hold, so they live in a store: a cell per address, and the next free
  address.  A dictionary is an association list; its values are strings and
  booleans, which are immutable, so \<open>copy.deepcopy\<close> of a dictionary is a new
  cell with the same entries.
\<close>

datatype pval = PStr string | PBool bool

type_synonym params = "(string \<times> pval) list"
type_synonym addr = nat

definition MEMBER_PREFIX :: string where
  "MEMBER_PREFIX = ''@''"

definition CHANNEL_PREFIX :: string where
  "CHANNEL_PREFIX = ''#''"

text \<open>
  The decoded body of a list response (\<open>resp.json()\<close>): \<open>resp.get('ok')\<close>,
  \<open>resp.get('error')\<close>, \<open>resp[resource_type]\<close> (a missing key raises) and
  \<open>resp.get('response_metadata', {})\<close>.  An item of a list is a dictionary read
  by \<open>c['name']\<close> and \<open>c['id']\<close>.
\<close>

type_synonym item = "string \<rightharpoonup> string"

record slack_response =
  ok :: "bool option"
  error :: "string option"
  resources :: "string \<rightharpoonup> item list"
  response_metadata :: "(string \<rightharpoonup> string) option"

text \<open>A call \<open>session.get(url, params=next_params)\<close>, with the dictionary as it is then.\<close>

type_synonym slack_request = "string \<times> params"

record 's slack_world =
  sl_remote :: 's
  sl_requests :: "slack_request list"
  heap :: "addr \<Rightarrow> params"
  next_free :: addr
  logged :: "(string \<times> string option) list"

definition alloc :: "params \<Rightarrow> 's slack_world \<Rightarrow> addr \<times> 's slack_world" where
  "alloc d w = (next_free w, w\<lparr>heap := (heap w)(next_free w := d), next_free := Suc (next_free w)\<rparr>)"

definition deepcopy :: "addr \<Rightarrow> 's slack_world \<Rightarrow> addr \<times> 's slack_world" where
  "deepcopy a w = alloc (heap w a) w"

text \<open>\<open>d[k] = v\<close> on the dictionary at address \<open>a\<close>\<close>

definition setitem :: "addr \<Rightarrow> string \<Rightarrow> pval \<Rightarrow> 's slack_world \<Rightarrow> 's slack_world" where
  "setitem a k v w = w\<lparr>heap := (heap w)(a := AList.update k v (heap w a))\<rparr>"

definition session_get ::
  "('s, slack_request, slack_response) collaborator \<Rightarrow> string \<Rightarrow> addr \<Rightarrow> 's slack_world
    \<Rightarrow> slack_response result \<times> 's slack_world" where
  "session_get get url a w =
     (case get (sl_remote w) (url, heap w a) of
        (r, s') \<Rightarrow> (r, w\<lparr>sl_remote := s', sl_requests := sl_requests w @ [(url, heap w a)]\<rparr>))"

text \<open>\<open>logger.info(logger_message, extra={'error': resp.get('error')})\<close>\<close>

definition logger_info :: "string \<Rightarrow> string option \<Rightarrow> 's slack_world \<Rightarrow> 's slack_world" where
  "logger_info logger_message err w = w\<lparr>logged := logged w @ [(logger_message, err)]\<rparr>"

subsection \<open>\<open>_find_matching_conversation\<close>\<close>

text \<open>Python's truth value of \<open>resp.get('ok')\<close> and of an id that may be \<open>None\<close>.\<close>

definition truthy_ok :: "bool option \<Rightarrow> bool" where
  "truthy_ok b = (case b of None \<Rightarrow> False | Some v \<Rightarrow> v)"

definition truthy_id :: "string option \<Rightarrow> bool" where
  "truthy_id i = (case i of None \<Rightarrow> False | Some s \<Rightarrow> s \<noteq> [])"

text \<open>
  The inner \<open>for c in resp[resource_type]\<close>: \<open>Inr (Some i)\<close> is the
  \<open>return c['id'], did_error\<close> of the first item whose name is equal to \<open>name\<close>.
\<close>

fun scan_items :: "item list \<Rightarrow> string \<Rightarrow> string option result" where
  "scan_items [] name = Inr None"
| "scan_items (c # cs) name =
     (case c ''name'' of
        None \<Rightarrow> Inl (KeyError ''name'')
      | Some n \<Rightarrow>
          if n = name then
            (case c ''id'' of None \<Rightarrow> Inl (KeyError ''id'') | Some i \<Rightarrow> Inr (Some i))
          else scan_items cs name)"

text \<open>\<open>resp.get('response_metadata', {}).get('next_cursor')\<close>\<close>

definition get_next_cursor :: "slack_response \<Rightarrow> string option" where
  "get_next_cursor resp =
     (case response_metadata resp of None \<Rightarrow> None | Some m \<Rightarrow> m ''next_cursor'')"

text \<open>
  The bounded loop, with the iterations that are left as the first argument.  The
  result is the pair \<open>(id, did_error)\<close> that the function returns.
\<close>

fun conversation_loop ::
  "nat \<Rightarrow> ('s, slack_request, slack_response) collaborator \<Rightarrow> string \<Rightarrow> string \<Rightarrow> string
    \<Rightarrow> string \<Rightarrow> addr option \<Rightarrow> 's slack_world
    \<Rightarrow> (string option \<times> bool) result \<times> 's slack_world" where
  "conversation_loop 0 get logger_message url resource_type name next_params w =
     (Inr (None, False), w)"
| "conversation_loop (Suc n) get logger_message url resource_type name next_params w =
     (case next_params of
        None \<Rightarrow> (Inr (None, False), w)
      | Some a \<Rightarrow>
          (case session_get get url a w of
             (Inl e, w1) \<Rightarrow> (Inl e, w1)
           | (Inr resp, w1) \<Rightarrow>
               if \<not> truthy_ok (ok resp) then
                 (Inr (None, True), logger_info logger_message (error resp) w1)
               else
                 (case resources resp resource_type of
                    None \<Rightarrow> (Inl (KeyError resource_type), w1)
                  | Some cs \<Rightarrow>
                      (case scan_items cs name of
                         Inl e \<Rightarrow> (Inl e, w1)
                       | Inr (Some i) \<Rightarrow> (Inr (Some i, False), w1)
                       | Inr None \<Rightarrow>
                           (case get_next_cursor resp of
                              None \<Rightarrow>
                                conversation_loop n get logger_message url resource_type name
                                  None w1
                            | Some next_cursor \<Rightarrow>
                                conversation_loop n get logger_message url resource_type name
                                  (Some a) (setitem a ''cursor'' (PStr next_cursor) w1))))))"

definition find_matching_conversation ::
  "('s, slack_request, slack_response) collaborator \<Rightarrow> string \<Rightarrow> string \<Rightarrow> string
    \<Rightarrow> string \<Rightarrow> addr \<Rightarrow> 's slack_world
    \<Rightarrow> (string option \<times> bool) result \<times> 's slack_world" where
  "find_matching_conversation get logger_message url resource_type name original_params w =
     (case deepcopy original_params w of
        (next_params, w1) \<Rightarrow>
          conversation_loop MAX_ITERATIONS get logger_message url resource_type name
            (Some next_params) w1)"

definition find_matching_channel ::
  "('s, slack_request, slack_response) collaborator \<Rightarrow> string \<Rightarrow> addr \<Rightarrow> 's slack_world
    \<Rightarrow> (string option \<times> bool) result \<times> 's slack_world" where
  "find_matching_channel get name original_params w =
     find_matching_conversation get ''rule.slack.channel_list_failed''
       ''https://slack.com/api/channels.list'' ''channels'' name original_params w"

definition find_matching_group ::
  "('s, slack_request, slack_response) collaborator \<Rightarrow> string \<Rightarrow> addr \<Rightarrow> 's slack_world
    \<Rightarrow> (string option \<times> bool) result \<times> 's slack_world" where
  "find_matching_group get name original_params w =
     find_matching_conversation get ''rule.slack.group_list_failed''
       ''https://slack.com/api/groups.list'' ''groups'' name original_params w"

definition find_matching_user ::
  "('s, slack_request, slack_response) collaborator \<Rightarrow> string \<Rightarrow> addr \<Rightarrow> 's slack_world
    \<Rightarrow> (string option \<times> bool) result \<times> 's slack_world" where
  "find_matching_user get name original_params w =
     find_matching_conversation get ''rule.slack.user_list_failed''
       ''https://slack.com/api/users.list'' ''members'' name original_params w"

subsection \<open>\<open>SlackNotifyServiceAction.get_channel_id\<close>\<close>

text \<open>
  \<open>integration\<close> is the outcome of \<open>Integration.objects.get(...)\<close>: the
  metadata of the integration, or \<open>None\<close> for \<open>Integration.DoesNotExist\<close>.
  The result is the pair \<open>(prefix, id)\<close>, or \<open>None\<close>.
\<close>

definition get_channel_id ::
  "('s, slack_request, slack_response) collaborator \<Rightarrow> (string \<rightharpoonup> string) option \<Rightarrow> string
    \<Rightarrow> 's slack_world \<Rightarrow> (string \<times> string) option result \<times> 's slack_world" where
  "get_channel_id get integration name w =
     (case integration of
        None \<Rightarrow> (Inr None, w)
      | Some metadata \<Rightarrow>
          (case metadata ''access_token'' of
             None \<Rightarrow> (Inl (KeyError ''access_token''), w)
           | Some tok \<Rightarrow>
               (case alloc [(''token'', PStr tok)] w of
                  (token_payload, w0) \<Rightarrow>
               (case alloc (AList.update ''exclude_members'' (PBool True)
                             (AList.update ''exclude_archived'' (PBool False)
                               (heap w0 token_payload))) w0 of
                  (channels_payload, w1) \<Rightarrow>
               (case find_matching_channel get name channels_payload w1 of
                  (Inl e, w2) \<Rightarrow> (Inl e, w2)
                | (Inr (channel_id, did_error), w2) \<Rightarrow>
                    if did_error then (Inr None, w2)
                    else if truthy_id channel_id then
                      (Inr (Some (CHANNEL_PREFIX, the channel_id)), w2)
                    else
               (case find_matching_group get name channels_payload w2 of
                  (Inl e, w3) \<Rightarrow> (Inl e, w3)
                | (Inr (group_id, did_error), w3) \<Rightarrow>
                    if did_error then (Inr None, w3)
                    else if truthy_id group_id then
                      (Inr (Some (CHANNEL_PREFIX, the group_id)), w3)
                    else
               (case find_matching_user get name channels_payload w3 of
                  (Inl e, w4) \<Rightarrow> (Inl e, w4)
                | (Inr (member_id, did_error), w4) \<Rightarrow>
                    if did_error then (Inr None, w4)
                    else if truthy_id member_id then
                      (Inr (Some (MEMBER_PREFIX, the member_id)), w4)
                    else (Inr None, w4))))))))"

section \<open>GitHub access token: \<open>GitHubClientMixin.get_token\<close>\<close>

subsection \<open>\<open>datetime\<close>, \<open>strptime\<close> and \<open>isoformat\<close>\<close>

text \<open>A naive \<open>datetime\<close>, as \<open>strptime\<close> and \<open>utcnow\<close> return it.\<close>

record datetime =
  year :: nat
  month :: nat
  day :: nat
  hour :: nat
  minute :: nat
  second :: nat
  microsecond :: nat

text \<open>\<open>a < b\<close> on two naive datetimes compares the fields in this order.\<close>

definition dt_less :: "datetime \<Rightarrow> datetime \<Rightarrow> bool" where
  "dt_less a b =
     (year a < year b \<or> (year a = year b \<and>
     (month a < month b \<or> (month a = month b \<and>
     (day a < day b \<or> (day a = day b \<and>
     (hour a < hour b \<or> (hour a = hour b \<and>
     (minute a < minute b \<or> (minute a = minute b \<and>
     (second a < second b \<or> (second a = second b \<and>
      microsecond a < microsecond b))))))))))))"

definition is_leap :: "nat \<Rightarrow> bool" where
  "is_leap y = (y mod 4 = 0 \<and> (y mod 100 \<noteq> 0 \<or> y mod 400 = 0))"

definition days_in_month :: "nat \<Rightarrow> nat \<Rightarrow> nat" where
  "days_in_month y m =
     (if m = 2 then (if is_leap y then 29 else 28)
      else if m = 4 \<or> m = 6 \<or> m = 9 \<or> m = 11 then 30 else 31)"

text \<open>The range checks of the \<open>datetime\<close> constructor, which raises \<open>ValueError\<close>.\<close>

definition valid_datetime :: "datetime \<Rightarrow> bool" where
  "valid_datetime d =
     (1 \<le> year d \<and> year d \<le> 9999 \<and> 1 \<le> month d \<and> month d \<le> 12
      \<and> 1 \<le> day d \<and> day d \<le> days_in_month (year d) (month d)
      \<and> hour d \<le> 23 \<and> minute d \<le> 59 \<and> second d \<le> 59 \<and> microsecond d \<le> 999999)"

definition is_digit :: "char \<Rightarrow> bool" where
  "is_digit c = (48 \<le> (of_char c :: nat) \<and> (of_char c :: nat) \<le> 57)"

definition digit_val :: "char \<Rightarrow> nat" where
  "digit_val c = of_char c - 48"

definition digit_char :: "nat \<Rightarrow> char" where
  "digit_char d = char_of (48 + d)"

definition digits_val :: "string \<Rightarrow> nat" where
  "digits_val ds = foldl (\<lambda>a c. 10 * a + digit_val c) 0 ds"

text \<open>\<open>'%d' % n\<close> and the zero padding of \<open>'%04d'\<close>, \<open>'%02d'\<close>, \<open>'%06d'\<close>\<close>

fun dec :: "nat \<Rightarrow> string" where
  "dec n = (if n < 10 then [digit_char n] else dec (n div 10) @ [digit_char (n mod 10)])"

declare dec.simps [simp del]

definition zpad :: "nat \<Rightarrow> nat \<Rightarrow> string" where
  "zpad width n = replicate (width - length (dec n)) (CHR ''0'') @ dec n"

text \<open>
  \<open>datetime.isoformat()\<close> of a naive datetime: the fraction is written only when
  the microseconds are not zero.
\<close>

definition isoformat :: "datetime \<Rightarrow> string" where
  "isoformat d =
     zpad 4 (year d) @ ''-'' @ zpad 2 (month d) @ ''-'' @ zpad 2 (day d) @ ''T''
       @ zpad 2 (hour d) @ '':'' @ zpad 2 (minute d) @ '':'' @ zpad 2 (second d)
       @ (if microsecond d = 0 then [] else ''.'' @ zpad 6 (microsecond d))"

text \<open>
  \<open>datetime.strptime(s, format)\<close> for the directives that the two formats of the
  source use.  A format is cut into directives and literal characters; the
  string is matched from the left; a numeric directive takes the digits its
  pattern allows (four for \<open>%Y\<close>, one or two for the others, within the range of
  the directive); literal characters are matched without regard to case; nothing
  may be left over at the end; the fields that were read must make a date and a
  time.  Every failure is a \<open>ValueError\<close>.
\<close>

datatype fmt_item = Directive char | Literal char

fun parse_format :: "string \<Rightarrow> fmt_item list" where
  "parse_format [] = []"
| "parse_format [c] = [Literal c]"
| "parse_format (c # d # cs) =
     (if c = CHR ''%'' then Directive d # parse_format cs else Literal c # parse_format (d # cs))"

definition read_number :: "nat \<Rightarrow> nat \<Rightarrow> nat \<Rightarrow> nat \<Rightarrow> string \<Rightarrow> (nat \<times> string) option" where
  "read_number min_len max_len lo hi s =
     (let ds = takeWhile is_digit (take max_len s); v = digits_val ds in
      if min_len \<le> length ds \<and> lo \<le> v \<and> v \<le> hi then Some (v, drop (length ds) s) else None)"

text \<open>\<open>%d\<close> also takes a day that is padded with a space.\<close>

definition read_day :: "string \<Rightarrow> (nat \<times> string) option" where
  "read_day s =
     (case read_number 1 2 1 31 s of
        Some r \<Rightarrow> Some r
      | None \<Rightarrow>
          (case s of
             c # d # rest \<Rightarrow>
               if c = CHR '' '' \<and> is_digit d \<and> 1 \<le> digit_val d then Some (digit_val d, rest)
               else None
           | _ \<Rightarrow> None))"

definition read_directive :: "char \<Rightarrow> string \<Rightarrow> datetime \<Rightarrow> (datetime \<times> string) option" where
  "read_directive c s d =
     (if c = CHR ''Y'' then map_option (\<lambda>(v, r). (d\<lparr>year := v\<rparr>, r)) (read_number 4 4 0 9999 s)
      else if c = CHR ''m'' then map_option (\<lambda>(v, r). (d\<lparr>month := v\<rparr>, r)) (read_number 1 2 1 12 s)
      else if c = CHR ''d'' then map_option (\<lambda>(v, r). (d\<lparr>day := v\<rparr>, r)) (read_day s)
      else if c = CHR ''H'' then map_option (\<lambda>(v, r). (d\<lparr>hour := v\<rparr>, r)) (read_number 1 2 0 23 s)
      else if c = CHR ''M'' then map_option (\<lambda>(v, r). (d\<lparr>minute := v\<rparr>, r)) (read_number 1 2 0 59 s)
      else if c = CHR ''S'' then map_option (\<lambda>(v, r). (d\<lparr>second := v\<rparr>, r)) (read_number 1 2 0 61 s)
      else None)"

definition lower :: "char \<Rightarrow> char" where
  "lower c = (if 65 \<le> (of_char c :: nat) \<and> (of_char c :: nat) \<le> 90
              then char_of ((of_char c :: nat) + 32) else c)"

fun run_format :: "fmt_item list \<Rightarrow> string \<Rightarrow> datetime \<Rightarrow> datetime option" where
  "run_format [] s d = (if s = [] then Some d else None)"
| "run_format (Literal c # fs) s d =
     (case s of
        [] \<Rightarrow> None
      | x # rest \<Rightarrow> if lower x = lower c then run_format fs rest d else None)"
| "run_format (Directive c # fs) s d =
     (case read_directive c s d of
        None \<Rightarrow> None
      | Some (d', rest) \<Rightarrow> run_format fs rest d')"

definition strptime :: "string \<Rightarrow> string \<Rightarrow> datetime result" where
  "strptime s format =
     (case run_format (parse_format format) s
             \<lparr>year = 1900, month = 1, day = 1, hour = 0, minute = 0, second = 0, microsecond = 0\<rparr> of
        None \<Rightarrow> Inl ValueError
      | Some d \<Rightarrow> if valid_datetime d then Inr d else Inl ValueError)"

subsection \<open>\<open>create_token\<close> and \<open>get_token\<close>\<close>

text \<open>
  The integration record: its metadata dictionary, which \<open>get_token\<close> reads and
  updates in place, its \<open>external_id\<close>, and what \<open>integration.save()\<close> has
  written, one entry per call.  \<open>posts\<close> are the minting requests sent so far.
\<close>

type_synonym post_request = "string \<times> (string \<times> string) list"

record 's token_world =
  tk_remote :: 's
  metadata :: "string \<rightharpoonup> string"
  external_id :: string
  saved :: "(string \<rightharpoonup> string) list"
  posts :: "post_request list"

text \<open>
  \<open>create_token\<close> posts to the installation's endpoint with the signed assertion
  \<open>get_jwt()\<close> as bearer; \<open>post\<close> is the HTTP collaborator and answers with the
  decoded body.
\<close>

definition create_token ::
  "('s, post_request, string \<rightharpoonup> string) collaborator \<Rightarrow> string \<Rightarrow> 's token_world
    \<Rightarrow> (string \<rightharpoonup> string) result \<times> 's token_world" where
  "create_token post jwt w =
     (let req = (''/installations/'' @ external_id w @ ''/access_tokens'',
                 [(''Authorization'', ''Bearer '' @ jwt),
                  (''Accept'', ''application/vnd.github.machine-man-preview+json'')])
      in case post (tk_remote w) req of
           (r, s') \<Rightarrow> (r, w\<lparr>tk_remote := s', posts := posts w @ [req]\<rparr>))"

text \<open>Python's truth value of \<open>metadata.get('access_token')\<close>\<close>

definition truthy_token :: "string option \<Rightarrow> bool" where
  "truthy_token t = (case t of None \<Rightarrow> False | Some s \<Rightarrow> s \<noteq> [])"

text \<open>
  Lines 109 to 112: the stored expiry, parsed when it is there.
\<close>

definition load_expires_at :: "'s token_world \<Rightarrow> datetime option result" where
  "load_expires_at w =
     (case metadata w ''expires_at'' of
        None \<Rightarrow> Inr None
      | Some s \<Rightarrow>
          (case strptime s ''%Y-%m-%dT%H:%M:%S'' of Inl e \<Rightarrow> Inl e | Inr d \<Rightarrow> Inr (Some d)))"

text \<open>
  \<open>not token or expires_at < datetime.utcnow() or force_refresh\<close>, evaluated from
  the left: the comparison is reached when the token is there, and it raises
  \<open>TypeError\<close> when \<open>expires_at\<close> is \<open>None\<close>.
\<close>

definition needs_refresh :: "string option \<Rightarrow> datetime option \<Rightarrow> datetime \<Rightarrow> bool \<Rightarrow> bool result" where
  "needs_refresh token expires_at now force_refresh =
     (if \<not> truthy_token token then Inr True
      else (case expires_at of
              None \<Rightarrow> Inl TypeError
            | Some e \<Rightarrow> Inr (dt_less e now \<or> force_refresh)))"

text \<open>Lines 115 to 126: mint, update the metadata, save.\<close>

definition refresh_token ::
  "('s, post_request, string \<rightharpoonup> string) collaborator \<Rightarrow> string \<Rightarrow> 's token_world
    \<Rightarrow> string result \<times> 's token_world" where
  "refresh_token post jwt w =
     (case create_token post jwt w of
        (Inl e, w1) \<Rightarrow> (Inl e, w1)
      | (Inr res, w1) \<Rightarrow>
          (case res ''token'' of
             None \<Rightarrow> (Inl (KeyError ''token''), w1)
           | Some token \<Rightarrow>
               (case res ''expires_at'' of
                  None \<Rightarrow> (Inl (KeyError ''expires_at''), w1)
                | Some s \<Rightarrow>
                    (case strptime s ''%Y-%m-%dT%H:%M:%SZ'' of
                       Inl e \<Rightarrow> (Inl e, w1)
                     | Inr expires_at \<Rightarrow>
                         (let md = (metadata w1)(''access_token'' \<mapsto> token,
                                                 ''expires_at'' \<mapsto> isoformat expires_at)
                          in (Inr token, w1\<lparr>metadata := md, saved := saved w1 @ [md]\<rparr>))))))"

definition get_token ::
  "('s, post_request, string \<rightharpoonup> string) collaborator \<Rightarrow> string \<Rightarrow> datetime \<Rightarrow> bool
    \<Rightarrow> 's token_world \<Rightarrow> string result \<times> 's token_world" where
  "get_token post jwt now force_refresh w =
     (let token = metadata w ''access_token'' in
      case load_expires_at w of
        Inl e \<Rightarrow> (Inl e, w)
      | Inr expires_at \<Rightarrow>
          (case needs_refresh token expires_at now force_refresh of
             Inl e \<Rightarrow> (Inl e, w)
           | Inr True \<Rightarrow> refresh_token post jwt w
           | Inr False \<Rightarrow>
               (case token of
                  None \<Rightarrow> (Inl TypeError, w)
                | Some t \<Rightarrow> (Inr t, w))))"

section \<open>Notions used to state the properties\<close>

subsection \<open>GitHub pages\<close>

text \<open>The \<open>next\<close> entry of a response's relation map, if there is one.\<close>

definition next_link :: "'r response \<Rightarrow> string option" where
  "next_link response = (case rel response of None \<Rightarrow> None | Some m \<Rightarrow> m ''next'')"

text \<open>A page is chained when it advertises a next URL that starts with the base URL.\<close>

definition chained :: "string \<Rightarrow> 'r response \<Rightarrow> bool" where
  "chained base_url response =
     (case next_link response of None \<Rightarrow> False | Some u \<Rightarrow> prefix base_url u)"

text \<open>\<open>response['repositories']\<close> when the key is there.\<close>

definition repositories_of :: "'r response \<Rightarrow> 'r list option" where
  "repositories_of response = body response ''repositories''"

text \<open>The client starts with no request sent and nothing printed.\<close>

definition gh_start :: "'s \<Rightarrow> 's gh_world" where
  "gh_start s = \<lparr>gh_remote = s, gh_requests = [], stderr = []\<rparr>"

text \<open>
  A stand-in for \<open>repr\<close> in the examples: \<open>None\<close>, or the string between
  single quotes (what \<open>repr\<close> gives for a string without quotes or escapes).
\<close>

definition plain_repr :: "string option \<Rightarrow> string" where
  "plain_repr v = (case v of None \<Rightarrow> ''None'' | Some s \<Rightarrow> [CHR 0x27] @ s @ [CHR 0x27])"

text \<open>\<open>GitHubClientMixin.base_url\<close>\<close>

definition github_base_url :: string where
  "github_base_url = ''https://api.github.com''"

text \<open>
  Example pages: one whose next URL is on another host, one that links to a
  further page of the installation's repositories, and a last page.
\<close>

definition stray_page :: "nat response" where
  "stray_page = \<lparr>body = [''repositories'' \<mapsto> [1]],
                  headers = [''Link'' \<mapsto> ''<http://x/r?page=2>; rel=\"next\"''],
                  rel = Some [''next'' \<mapsto> ''http://x/r?page=2'']\<rparr>"

definition linked_page :: "nat response" where
  "linked_page = \<lparr>body = [''repositories'' \<mapsto> [7]],
     headers = [''Link'' \<mapsto> ''<https://api.github.com/installation/repositories?page=2>; rel=\"next\"''],
     rel = Some [''next'' \<mapsto> ''https://api.github.com/installation/repositories?page=2'']\<rparr>"

definition last_page :: "nat response" where
  "last_page = \<lparr>body = [''repositories'' \<mapsto> [9]], headers = Map.empty, rel = Some Map.empty\<rparr>"

text \<open>
  What a collaborator answers to a sequence of requests, one after the other, from
  a given state.
\<close>

fun replies :: "('s, 'q, 'a) collaborator \<Rightarrow> 's \<Rightarrow> 'q list \<Rightarrow> 'a result list" where
  "replies get s [] = []"
| "replies get s (q # qs) = (case get s q of (r, s') \<Rightarrow> r # replies get s' qs)"

text \<open>
  The request for the first page, \<open>get('/installation/repositories',
  params={'per_page': 100})\<close>, and the request for a next page, \<open>get(next_url)\<close>.
\<close>

definition first_request :: gh_request where
  "first_request = (''/installation/repositories'', Some [(''per_page'', 100)])"

definition follow_up :: "string \<Rightarrow> gh_request" where
  "follow_up u = (u, None)"

text \<open>
  A provider that answers by the path that is requested: the page that the site
  holds there, or an error when it holds none.
\<close>

definition served :: "(string \<rightharpoonup> 'r response) \<Rightarrow> (unit, gh_request, 'r response) collaborator" where
  "served site s req =
     (case site (fst req) of
        None \<Rightarrow> (Inl (CollaboratorError ''not found''), s)
      | Some r \<Rightarrow> (Inr r, s))"

text \<open>
  A site of three pages: each of the first two advertises the path of the next
  one under the base URL of the client, the third has no next link.
\<close>

definition page_one :: "nat response" where
  "page_one = \<lparr>body = [''repositories'' \<mapsto> [1, 2]],
     headers = [''Link'' \<mapsto> ''<https://api.github.com/installation/repositories?per_page=100&page=2>; rel=\"next\"''],
     rel = Some [''next'' \<mapsto> ''https://api.github.com/installation/repositories?per_page=100&page=2'']\<rparr>"

definition page_two :: "nat response" where
  "page_two = \<lparr>body = [''repositories'' \<mapsto> [3]],
     headers = [''Link'' \<mapsto> ''<https://api.github.com/installation/repositories?per_page=100&page=3>; rel=\"next\"''],
     rel = Some [''next'' \<mapsto> ''https://api.github.com/installation/repositories?per_page=100&page=3'']\<rparr>"

definition page_three :: "nat response" where
  "page_three = \<lparr>body = [''repositories'' \<mapsto> [4]], headers = Map.empty, rel = Some Map.empty\<rparr>"

definition github_site :: "string \<rightharpoonup> nat response" where
  "github_site =
     [''/installation/repositories'' \<mapsto> page_one,
      ''/installation/repositories?per_page=100&page=2'' \<mapsto> page_two,
      ''/installation/repositories?per_page=100&page=3'' \<mapsto> page_three]"

subsection \<open>Slack pages\<close>

text \<open>No item of the list has the name that is looked for (and every item has a name).\<close>

definition no_match :: "string \<Rightarrow> item list \<Rightarrow> bool" where
  "no_match name cs = list_all (\<lambda>c. case c ''name'' of None \<Rightarrow> False | Some n \<Rightarrow> n \<noteq> name) cs"

text \<open>
  A page turns over when it is accepted, holds the list without a match, and
  carries a next cursor; it is final when it carries none.
\<close>

definition turns_page :: "string \<Rightarrow> string \<Rightarrow> slack_response \<Rightarrow> bool" where
  "turns_page resource_type name resp =
     (truthy_ok (ok resp)
      \<and> (case resources resp resource_type of None \<Rightarrow> False | Some cs \<Rightarrow> no_match name cs)
      \<and> get_next_cursor resp \<noteq> None)"

definition final_page :: "string \<Rightarrow> string \<Rightarrow> slack_response \<Rightarrow> bool" where
  "final_page resource_type name resp =
     (truthy_ok (ok resp)
      \<and> (case resources resp resource_type of None \<Rightarrow> False | Some cs \<Rightarrow> no_match name cs)
      \<and> get_next_cursor resp = None)"


text \<open>
  What one traversal does to the world: \<open>k\<close> requests to its URL, one new
  cell (the copy of the parameters), and no change to any other cell.
\<close>

definition traversed :: "string \<Rightarrow> nat \<Rightarrow> 's slack_world \<Rightarrow> 's slack_world \<Rightarrow> bool" where
  "traversed url k w w' =
     ((\<exists>new. sl_requests w' = sl_requests w @ new \<and> map fst new = replicate k url)
      \<and> next_free w' = Suc (next_free w)
      \<and> (\<forall>b. b \<noteq> next_free w \<longrightarrow> heap w' b = heap w b))"

text \<open>The payload that \<open>get_channel_id\<close> builds from the token.\<close>

definition channels_payload_of :: "string \<Rightarrow> params" where
  "channels_payload_of tok =
     [(''token'', PStr tok), (''exclude_archived'', PBool False), (''exclude_members'', PBool True)]"

text \<open>
  Example worlds and pages: an empty world, the world of a caller that holds one
  payload at address 0, an item, an accepted page, and a rejected one.
\<close>

definition slack_start :: "'s \<Rightarrow> 's slack_world" where
  "slack_start s = \<lparr>sl_remote = s, sl_requests = [], heap = (\<lambda>_. []), next_free = 0, logged = []\<rparr>"

definition caller_world :: "'s \<Rightarrow> 's slack_world" where
  "caller_world s = snd (alloc (channels_payload_of ''xoxb-1'') (slack_start s))"

definition conversation :: "string \<Rightarrow> string \<Rightarrow> item" where
  "conversation n i = [''name'' \<mapsto> n, ''id'' \<mapsto> i]"

definition page_with :: "string \<Rightarrow> item list \<Rightarrow> string option \<Rightarrow> slack_response" where
  "page_with resource_type cs cursor =
     \<lparr>ok = Some True, error = None, resources = [resource_type \<mapsto> cs],
      response_metadata =
        Some (case cursor of None \<Rightarrow> Map.empty | Some c \<Rightarrow> [''next_cursor'' \<mapsto> c])\<rparr>"

definition rejected_page :: slack_response where
  "rejected_page =
     \<lparr>ok = Some False, error = Some ''rate_limited'', resources = Map.empty,
      response_metadata = None\<rparr>"

definition other_channels_page :: slack_response where
  "other_channels_page = page_with ''channels'' [conversation ''general'' ''C024BE91L''] (Some ''abc'')"


























subsection \<open>Stored tokens\<close>

text \<open>
  Example integrations: the clock at noon and at one o'clock, a minting answer
  that expires at one o'clock, and stored metadata with and without an expiry.
\<close>

definition noon :: datetime where
  "noon = \<lparr>year = 2018, month = 7, day = 1, hour = 12, minute = 0, second = 0, microsecond = 0\<rparr>"

definition one_pm :: datetime where
  "one_pm = \<lparr>year = 2018, month = 7, day = 1, hour = 13, minute = 0, second = 0, microsecond = 0\<rparr>"

definition mint_response :: "string \<rightharpoonup> string" where
  "mint_response = [''token'' \<mapsto> ''v1.new'', ''expires_at'' \<mapsto> ''2018-07-01T13:00:00Z'']"

definition integration_with :: "(string \<rightharpoonup> string) \<Rightarrow> (string \<rightharpoonup> string) list token_world" where
  "integration_with md =
     \<lparr>tk_remote = [mint_response], metadata = md, external_id = ''42'', saved = [], posts = []\<rparr>"

definition expiring_at_noon :: "string \<rightharpoonup> string" where
  "expiring_at_noon = [''access_token'' \<mapsto> ''v1.old'', ''expires_at'' \<mapsto> ''2018-07-01T12:00:00'']"

definition without_expiry :: "string \<rightharpoonup> string" where
  "without_expiry = [''access_token'' \<mapsto> ''v1.old'']"

section \<open>Lemmas on the GitHub enumeration\<close>

lemma find_sep_prefix:
  "sep \<noteq> [] \<Longrightarrow> prefix sep s \<Longrightarrow> find_sep sep s = Some ([], drop (length sep) s)"
  by (cases s) auto

lemma split_once_prefix:
  "sep \<noteq> [] \<Longrightarrow> prefix sep s \<Longrightarrow> split_once s sep = Inr ([], drop (length sep) s)"
  by (simp add: split_once_def find_sep_prefix)

lemma get_rel_next_no_next:
  "next_link response = None \<Longrightarrow> get_rel_next repr base_url response w = (Inr None, w)"
  by (auto simp: get_rel_next_def next_link_def split: option.splits)

lemma get_rel_next_stripped:
  "base_url \<noteq> [] \<Longrightarrow> next_link response = Some u \<Longrightarrow> prefix base_url u \<Longrightarrow>
   get_rel_next repr base_url response w = (Inr (Some (drop (length base_url) u)), w)"
  by (auto simp: get_rel_next_def next_link_def split_once_prefix split: option.splits)

lemma get_rel_next_foreign:
  "next_link response = Some u \<Longrightarrow> \<not> prefix base_url u \<Longrightarrow>
   get_rel_next repr base_url response w =
     (Inr None, w\<lparr>stderr := stderr w @ [BAD_NEXT_REL repr (headers response ''Link'') u base_url]\<rparr>)"
  by (auto simp: get_rel_next_def next_link_def split: option.splits)

lemma client_get_scripted:
  "gh_remote w = p # ps \<Longrightarrow>
   client_get scripted req w = (Inr p, w\<lparr>gh_remote := ps, gh_requests := gh_requests w @ [req]\<rparr>)"
  by (simp add: client_get_def scripted_def)

lemma client_get_requests:
  "gh_requests (snd (client_get get req w)) = gh_requests w @ [req]"
  by (simp add: client_get_def split: prod.splits)

lemma get_rel_next_frame:
  "gh_requests (snd (get_rel_next repr base_url response w)) = gh_requests w
   \<and> gh_remote (snd (get_rel_next repr base_url response w)) = gh_remote w"
  by (simp add: get_rel_next_def Let_def split: option.splits sum.splits prod.splits)

lemma get_rel_next_total:
  assumes "base_url \<noteq> []"
  shows "\<exists>v w'. get_rel_next repr base_url response w = (Inr v, w')
           \<and> (v = None \<longleftrightarrow> \<not> chained base_url response)"
proof (cases "next_link response")
  case None
  then show ?thesis by (simp add: get_rel_next_no_next chained_def)
next
  case (Some u)
  then show ?thesis
    using assms
    by (cases "prefix base_url u")
       (simp_all add: get_rel_next_stripped get_rel_next_foreign chained_def)
qed

lemma paging_loop_None:
  "paging_loop n get repr base_url None acc w = (Inr acc, w)"
  by (cases n) simp_all

lemma paging_loop_bound:
  "length (gh_requests (snd (paging_loop n get repr base_url nxt acc w)))
     \<le> length (gh_requests w) + n"
proof (induction n arbitrary: nxt acc w)
  case 0
  then show ?case by simp
next
  case (Suc n)
  show ?case
  proof (cases nxt)
    case None
    then show ?thesis by simp
  next
    case (Some u)
    obtain r w1 where g: "client_get get (u, None) w = (r, w1)" by (cases "client_get get (u, None) w")
    have l1: "length (gh_requests w1) = Suc (length (gh_requests w))"
      using client_get_requests [of get "(u, None)" w] g by simp
    show ?thesis
    proof (cases r)
      case (Inl e)
      with Some g l1 show ?thesis by simp
    next
      case (Inr response)
      show ?thesis
      proof (cases "extend_repositories acc response")
        case (Inl e)
        with Some g l1 Inr show ?thesis by simp
      next
        case ext: (Inr all')
        obtain v w2 where n: "get_rel_next repr base_url response w1 = (v, w2)"
          by (cases "get_rel_next repr base_url response w1")
        have l2: "gh_requests w2 = gh_requests w1"
          using get_rel_next_frame [of repr base_url response w1] n by simp
        show ?thesis
        proof (cases v)
          case (Inl e)
          with Some g l1 Inr ext n l2 show ?thesis by simp
        next
          case nx: (Inr next')
          have "length (gh_requests (snd (paging_loop n get repr base_url next' all' w2)))
                  \<le> length (gh_requests w2) + n"
            by (rule Suc.IH)
          with Some g l1 Inr ext n l2 nx show ?thesis by simp
        qed
      qed
    qed
  qed
qed

lemma paging_loop_scripted:
  assumes "base_url \<noteq> []"
    and "map repositories_of pages = map Some itemss"
    and "pages \<noteq> []"
    and "\<forall>p \<in> set (butlast pages). chained base_url p"
    and "\<not> chained base_url (last pages) \<or> length pages = n"
    and "length pages \<le> n"
    and "gh_remote w = pages @ rest"
  shows "fst (paging_loop n scripted repr base_url (Some u) acc w) = Inr (acc @ concat itemss)
       \<and> length (gh_requests (snd (paging_loop n scripted repr base_url (Some u) acc w)))
           = length (gh_requests w) + length pages"
  using assms(2-)
proof (induction pages arbitrary: n u acc w itemss)
  case Nil
  then show ?case by simp
next
  case (Cons p ps)
  from Cons.prems(5) obtain m where n: "n = Suc m" by (cases n) auto
  from Cons.prems(1) obtain its itss where itemss: "itemss = its # itss"
    and its0: "repositories_of p = Some its"
    and itss: "map repositories_of ps = map Some itss"
    by (cases itemss) auto
  from its0 have its: "body p ''repositories'' = Some its"
    by (simp add: repositories_of_def)
  let ?w1 = "w\<lparr>gh_remote := ps @ rest, gh_requests := gh_requests w @ [(u, None)]\<rparr>"
  have g: "client_get scripted (u, None) w = (Inr p, ?w1)"
    using Cons.prems(6) by (simp add: client_get_scripted)
  have e: "extend_repositories acc p = Inr (acc @ its)"
    by (simp add: extend_repositories_def its)
  obtain v w2 where r: "get_rel_next repr base_url p ?w1 = (Inr v, w2)"
    and v: "v = None \<longleftrightarrow> \<not> chained base_url p"
    using get_rel_next_total [OF assms(1), of repr p ?w1] by blast
  have f: "gh_requests w2 = gh_requests ?w1" "gh_remote w2 = gh_remote ?w1"
    using get_rel_next_frame [of repr base_url p ?w1] r by simp_all
  have step: "paging_loop n scripted repr base_url (Some u) acc w
                = paging_loop m scripted repr base_url v (acc @ its) w2"
    by (simp add: n g e r)
  show ?case
  proof (cases ps)
    case Nil
    show ?thesis
    proof (cases v)
      case None
      then show ?thesis using step f Nil itss itemss by (simp add: paging_loop_None)
    next
      case (Some u')
      with v Cons.prems(4) Nil n have "m = 0" by simp
      then show ?thesis using step f Nil itss itemss by simp
    qed
  next
    case (Cons q qs)
    with Cons.prems(3) have "chained base_url p" by simp
    with v obtain u' where u': "v = Some u'" by auto
    have "fst (paging_loop m scripted repr base_url (Some u') (acc @ its) w2)
            = Inr ((acc @ its) @ concat itss)
        \<and> length (gh_requests (snd (paging_loop m scripted repr base_url (Some u') (acc @ its) w2)))
            = length (gh_requests w2) + length ps"
    proof (rule Cons.IH [OF itss])
      show "ps \<noteq> []" using Cons by simp
      show "\<forall>p\<in>set (butlast ps). chained base_url p" using Cons.prems(3) Cons by simp
      show "\<not> chained base_url (last ps) \<or> length ps = m" using Cons.prems(4) Cons n by auto
      show "length ps \<le> m" using Cons.prems(5) n by simp
      show "gh_remote w2 = ps @ rest" using f by simp
    qed
    then show ?thesis using step u' f itemss by simp
  qed
qed

lemma paging_get_repositories_bound:
  "length (gh_requests (snd (paging_get_repositories get repr base_url w)))
     \<le> length (gh_requests w) + Suc MAX_ITERATIONS"
proof -
  let ?req = "(''/installation/repositories'', Some [(''per_page'', 100)])"
  obtain r w1 where g: "client_get get ?req w = (r, w1)" by (cases "client_get get ?req w")
  have l1: "length (gh_requests w1) = Suc (length (gh_requests w))"
    using client_get_requests [of get ?req w] g by simp
  show ?thesis
  proof (cases r)
    case (Inl e)
    with g l1 show ?thesis by (simp add: paging_get_repositories_def)
  next
    case (Inr response)
    show ?thesis
    proof (cases "extend_repositories [] response")
      case (Inl e)
      with g l1 Inr show ?thesis by (simp add: paging_get_repositories_def)
    next
      case ext: (Inr all')
      obtain v w2 where n: "get_rel_next repr base_url response w1 = (v, w2)"
        by (cases "get_rel_next repr base_url response w1")
      have l2: "gh_requests w2 = gh_requests w1"
        using get_rel_next_frame [of repr base_url response w1] n by simp
      show ?thesis
      proof (cases v)
        case (Inl e)
        with g l1 Inr ext n l2 show ?thesis by (simp add: paging_get_repositories_def)
      next
        case nx: (Inr next_url)
        have "length (gh_requests (snd (paging_loop MAX_ITERATIONS get repr base_url next_url all' w2)))
                \<le> length (gh_requests w2) + MAX_ITERATIONS"
          by (rule paging_loop_bound)
        with g l1 Inr ext n l2 nx show ?thesis by (simp add: paging_get_repositories_def)
      qed
    qed
  qed
qed

lemma paging_get_repositories_scripted:
  assumes "base_url \<noteq> []"
    and "map repositories_of pages = map Some itemss"
    and "pages \<noteq> []"
    and "\<forall>p \<in> set (butlast pages). chained base_url p"
    and "\<not> chained base_url (last pages) \<or> length pages = Suc MAX_ITERATIONS"
    and "length pages \<le> Suc MAX_ITERATIONS"
    and "gh_remote w = pages @ rest"
  shows "fst (paging_get_repositories scripted repr base_url w) = Inr (concat itemss)
       \<and> length (gh_requests (snd (paging_get_repositories scripted repr base_url w)))
           = length (gh_requests w) + length pages"
proof -
  let ?req = "(''/installation/repositories'', Some [(''per_page'', 100)])"
  from assms(3) obtain p ps where pages: "pages = p # ps" by (cases pages) auto
  from assms(2) pages obtain its itss where itemss: "itemss = its # itss"
    and its0: "repositories_of p = Some its"
    and itss: "map repositories_of ps = map Some itss"
    by (cases itemss) auto
  from its0 have its: "body p ''repositories'' = Some its" by (simp add: repositories_of_def)
  let ?w1 = "w\<lparr>gh_remote := ps @ rest, gh_requests := gh_requests w @ [?req]\<rparr>"
  have g: "client_get scripted ?req w = (Inr p, ?w1)"
    using assms(7) pages by (simp add: client_get_scripted)
  have e: "extend_repositories [] p = Inr its" by (simp add: extend_repositories_def its)
  obtain v w2 where r: "get_rel_next repr base_url p ?w1 = (Inr v, w2)"
    and v: "v = None \<longleftrightarrow> \<not> chained base_url p"
    using get_rel_next_total [OF assms(1), of repr p ?w1] by blast
  have f: "gh_requests w2 = gh_requests ?w1" "gh_remote w2 = gh_remote ?w1"
    using get_rel_next_frame [of repr base_url p ?w1] r by simp_all
  have step: "paging_get_repositories scripted repr base_url w
                = paging_loop MAX_ITERATIONS scripted repr base_url v its w2"
    by (simp add: paging_get_repositories_def g e r)
  show ?thesis
  proof (cases ps)
    case Nil
    with assms(5) pages have "\<not> chained base_url p" by (simp add: MAX_ITERATIONS_def)
    with v have "v = None" by simp
    then show ?thesis using step f Nil itss itemss pages by (simp add: paging_loop_None)
  next
    case (Cons q qs)
    with assms(4) pages have "chained base_url p" by simp
    with v obtain u where u: "v = Some u" by auto
    have "fst (paging_loop MAX_ITERATIONS scripted repr base_url (Some u) its w2)
            = Inr (its @ concat itss)
        \<and> length (gh_requests (snd (paging_loop MAX_ITERATIONS scripted repr base_url (Some u) its w2)))
            = length (gh_requests w2) + length ps"
    proof (rule paging_loop_scripted [OF assms(1) itss])
      show "ps \<noteq> []" using Cons by simp
      show "\<forall>p\<in>set (butlast ps). chained base_url p" using assms(4) pages Cons by simp
      show "\<not> chained base_url (last ps) \<or> length ps = MAX_ITERATIONS"
        using assms(5) pages Cons by auto
      show "length ps \<le> MAX_ITERATIONS" using assms(6) pages by simp
      show "gh_remote w2 = ps @ rest" using f by simp
    qed
    then show ?thesis using step u f itemss pages by simp
  qed
qed

lemma next_link_examples:
  "next_link stray_page = Some ''http://x/r?page=2''"
  "next_link linked_page = Some ''https://api.github.com/installation/repositories?page=2''"
  "next_link last_page = None"
  by (simp_all add: next_link_def stray_page_def linked_page_def last_page_def)

lemma github_base_nonempty: "github_base_url \<noteq> []"
  by (simp add: github_base_url_def)

lemma chained_linked_page: "chained github_base_url linked_page"
  by (simp add: chained_def next_link_examples github_base_url_def)

lemma repositories_examples:
  "repositories_of linked_page = Some [7]" "repositories_of last_page = Some [9]"
  by (simp_all add: repositories_of_def linked_page_def last_page_def)

lemma replicate_linked_pages:
  "map repositories_of (replicate n linked_page) = map Some (replicate n [7])"
  "\<forall>p \<in> set (replicate n linked_page). chained github_base_url p"
  "concat (replicate n [7::nat]) = replicate n 7"
  by (induction n) (simp_all add: repositories_examples chained_linked_page)

lemma client_get_reply:
  "get (gh_remote w) req = (Inr p, s') \<Longrightarrow>
   client_get get req w = (Inr p, w\<lparr>gh_remote := s', gh_requests := gh_requests w @ [req]\<rparr>)"
  by (simp add: client_get_def)

lemma get_rel_next_appended:
  "base_url \<noteq> [] \<Longrightarrow> next_link response = Some (base_url @ v) \<Longrightarrow>
   get_rel_next repr base_url response w = (Inr (Some v), w)"
  using get_rel_next_stripped [of base_url response "base_url @ v" repr w] by simp

lemma extend_repositories_of:
  "repositories_of p = Some its \<Longrightarrow> extend_repositories acc p = Inr (acc @ its)"
  by (simp add: extend_repositories_def repositories_of_def)

lemma replies_Cons:
  "replies get s (q # qs) = Inr p # rs \<Longrightarrow> \<exists>s'. get s q = (Inr p, s') \<and> replies get s' qs = rs"
  by (auto split: prod.splits)

lemma paging_loop_follows:
  assumes "base_url \<noteq> []"
  shows "length pages \<le> n \<Longrightarrow>
     map next_link pages = map (\<lambda>v. Some (base_url @ v)) us @ [None] \<Longrightarrow>
     map repositories_of pages = map Some itemss \<Longrightarrow>
     replies get (gh_remote w) (map follow_up (u # us)) = map Inr pages \<Longrightarrow>
     fst (paging_loop n get repr base_url (Some u) acc w) = Inr (acc @ concat itemss)
     \<and> gh_requests (snd (paging_loop n get repr base_url (Some u) acc w))
         = gh_requests w @ map follow_up (u # us)
     \<and> stderr (snd (paging_loop n get repr base_url (Some u) acc w)) = stderr w"
proof (induction us arbitrary: pages n u acc w itemss)
  case Nil
  from Nil.prems(2) obtain p where pages: "pages = [p]" and nl: "next_link p = None"
    by (cases pages) auto
  from Nil.prems(1) pages obtain m where n: "n = Suc m" by (cases n) auto
  from Nil.prems(3) pages obtain its where itemss: "itemss = [its]"
    and its: "repositories_of p = Some its" by (cases itemss) auto
  from Nil.prems(4) pages obtain s' where g: "get (gh_remote w) (u, None) = (Inr p, s')"
    by (auto simp: follow_up_def split: prod.splits)
  show ?case
    by (simp add: n client_get_reply [where get = get, OF g] extend_repositories_of [OF its]
        get_rel_next_no_next [OF nl] paging_loop_None itemss follow_up_def)
next
  case (Cons v vs)
  from Cons.prems(2) obtain p ps where pages: "pages = p # ps"
    and nl: "next_link p = Some (base_url @ v)"
    and rest: "map next_link ps = map (\<lambda>v. Some (base_url @ v)) vs @ [None]"
    by (cases pages) auto
  from Cons.prems(1) pages obtain m where n: "n = Suc m" and m: "length ps \<le> m"
    by (cases n) auto
  from Cons.prems(3) pages obtain its itss where itemss: "itemss = its # itss"
    and its: "repositories_of p = Some its" and itss: "map repositories_of ps = map Some itss"
    by (cases itemss) auto
  have "replies get (gh_remote w) (follow_up u # map follow_up (v # vs)) = Inr p # map Inr ps"
    using Cons.prems(4) unfolding pages by (simp only: list.map)
  from replies_Cons [OF this] obtain s' where g0: "get (gh_remote w) (follow_up u) = (Inr p, s')"
    and r: "replies get s' (map follow_up (v # vs)) = map Inr ps"
    by blast
  note g = g0 [unfolded follow_up_def]
  let ?w1 = "w\<lparr>gh_remote := s', gh_requests := gh_requests w @ [(u, None)]\<rparr>"
  have r1: "replies get (gh_remote ?w1) (map follow_up (v # vs)) = map Inr ps"
    using r by (simp del: replies.simps)
  have step: "paging_loop n get repr base_url (Some u) acc w
      = paging_loop m get repr base_url (Some v) (acc @ its) ?w1"
    by (simp add: n client_get_reply [where get = get, OF g] extend_repositories_of [OF its]
        get_rel_next_appended [OF assms nl])
  show ?case
    using Cons.IH [where acc = "acc @ its", OF m rest itss r1]
    by (simp add: step itemss follow_up_def)
qed

lemma paging_get_repositories_follows:
  assumes "base_url \<noteq> []"
    and "length urls \<le> MAX_ITERATIONS"
    and "map next_link pages = map (\<lambda>u. Some (base_url @ u)) urls @ [None]"
    and "map repositories_of pages = map Some itemss"
    and "replies get (gh_remote w) (first_request # map follow_up urls) = map Inr pages"
  shows "fst (paging_get_repositories get repr base_url w) = Inr (concat itemss)
       \<and> gh_requests (snd (paging_get_repositories get repr base_url w))
           = gh_requests w @ first_request # map follow_up urls
       \<and> stderr (snd (paging_get_repositories get repr base_url w)) = stderr w"
proof (cases urls)
  case Nil
  from assms(3) Nil obtain p where pages: "pages = [p]" and nl: "next_link p = None"
    by (cases pages) auto
  from assms(4) pages obtain its where itemss: "itemss = [its]"
    and its: "repositories_of p = Some its" by (cases itemss) auto
  from assms(5) pages obtain s' where g: "get (gh_remote w) first_request = (Inr p, s')"
    by (auto split: prod.splits)
  show ?thesis
    using client_get_reply [where get = get, OF g]
    by (simp add: paging_get_repositories_def first_request_def extend_repositories_of [OF its]
        get_rel_next_no_next [OF nl] paging_loop_None itemss Nil)
next
  case (Cons v vs)
  from assms(3) Cons obtain p ps where pages: "pages = p # ps"
    and nl: "next_link p = Some (base_url @ v)"
    and rest: "map next_link ps = map (\<lambda>u. Some (base_url @ u)) vs @ [None]"
    by (cases pages) auto
  have len: "length ps = Suc (length vs)"
    using arg_cong [OF rest, of length] by simp
  have m: "length ps \<le> MAX_ITERATIONS" using assms(2) Cons len by simp
  from assms(4) pages obtain its itss where itemss: "itemss = its # itss"
    and its: "repositories_of p = Some its" and itss: "map repositories_of ps = map Some itss"
    by (cases itemss) auto
  have "replies get (gh_remote w) (first_request # map follow_up (v # vs)) = Inr p # map Inr ps"
    using assms(5) unfolding pages Cons by (simp only: list.map)
  from replies_Cons [OF this] obtain s' where g: "get (gh_remote w) first_request = (Inr p, s')"
    and r: "replies get s' (map follow_up (v # vs)) = map Inr ps"
    by blast
  let ?w1 = "w\<lparr>gh_remote := s', gh_requests := gh_requests w @ [first_request]\<rparr>"
  have r1: "replies get (gh_remote ?w1) (map follow_up (v # vs)) = map Inr ps"
    using r by (simp del: replies.simps)
  have step: "paging_get_repositories get repr base_url w
      = paging_loop MAX_ITERATIONS get repr base_url (Some v) its ?w1"
    using client_get_reply [where get = get, OF g]
    by (simp add: paging_get_repositories_def first_request_def extend_repositories_of [OF its]
        get_rel_next_appended [OF assms(1) nl])
  show ?thesis
    using paging_loop_follows [where acc = its and repr = repr, OF assms(1) m rest itss r1]
    by (simp add: step itemss Cons)
qed

lemma github_pages_examples:
  "map next_link [page_one, page_two, page_three]
     = map (\<lambda>u. Some (github_base_url @ u))
         [''/installation/repositories?per_page=100&page=2'',
          ''/installation/repositories?per_page=100&page=3''] @ [None]"
  "map repositories_of [page_one, page_two, page_three] = map Some [[1, 2], [3], [4]]"
  by (simp_all add: next_link_def repositories_of_def page_one_def page_two_def page_three_def
      github_base_url_def)

lemma github_site_replies:
  "replies (served github_site) ()
     (first_request # map follow_up [''/installation/repositories?per_page=100&page=2'',
          ''/installation/repositories?per_page=100&page=3''])
   = map Inr [page_one, page_two, page_three]"
  by (simp add: served_def github_site_def first_request_def follow_up_def)

section \<open>Lemmas on the Slack traversal\<close>

lemma scan_items_no_match: "no_match name cs \<Longrightarrow> scan_items cs name = Inr None"
  by (induction cs) (auto simp: no_match_def split: option.splits)


lemma scan_items_found:
  "scan_items cs name = Inr (Some i) \<Longrightarrow>
   \<exists>pre c post. cs = pre @ c # post \<and> no_match name pre \<and> c ''name'' = Some name \<and> c ''id'' = Some i"
proof (induction cs)
  case Nil
  then show ?case by simp
next
  case (Cons d ds)
  show ?case
  proof (cases "d ''name'' = Some name")
    case True
    with Cons.prems have "d ''id'' = Some i" by (simp split: option.splits)
    with True have "d # ds = [] @ d # ds \<and> no_match name [] \<and> d ''name'' = Some name \<and> d ''id'' = Some i"
      by (simp add: no_match_def)
    then show ?thesis by blast
  next
    case False
    with Cons.prems obtain n where n: "d ''name'' = Some n" "n \<noteq> name" "scan_items ds name = Inr (Some i)"
      by (auto split: option.splits if_splits)
    from Cons.IH [OF n(3)] obtain pre c post where
      "ds = pre @ c # post" "no_match name pre" "c ''name'' = Some name" "c ''id'' = Some i" by blast
    with n have "d # ds = (d # pre) @ c # post \<and> no_match name (d # pre) \<and> c ''name'' = Some name \<and> c ''id'' = Some i"
      by (simp add: no_match_def)
    then show ?thesis by blast
  qed
qed

lemma session_get_scripted:
  "sl_remote w = p # ps \<Longrightarrow>
   session_get scripted url a w =
     (Inr p, w\<lparr>sl_remote := ps, sl_requests := sl_requests w @ [(url, heap w a)]\<rparr>)"
  by (simp add: session_get_def scripted_def)

lemma session_get_frame:
  "sl_requests (snd (session_get get url a w)) = sl_requests w @ [(url, heap w a)]
   \<and> heap (snd (session_get get url a w)) = heap w
   \<and> next_free (snd (session_get get url a w)) = next_free w
   \<and> logged (snd (session_get get url a w)) = logged w"
  by (simp add: session_get_def split: prod.splits)

lemma conversation_loop_None:
  "conversation_loop n get lm url rt name None w = (Inr (None, False), w)"
  by (cases n) simp_all

lemma conversation_loop_turn:
  assumes "turns_page rt name p" "sl_remote w = p # ps"
  shows "\<exists>c. get_next_cursor p = Some c \<and>
         conversation_loop (Suc n) scripted lm url rt name (Some a) w =
         conversation_loop n scripted lm url rt name (Some a)
           (setitem a ''cursor'' (PStr c)
              (w\<lparr>sl_remote := ps, sl_requests := sl_requests w @ [(url, heap w a)]\<rparr>))"
proof -
  from assms(1) obtain cs c where
    "truthy_ok (ok p)" "resources p rt = Some cs" "no_match name cs" "get_next_cursor p = Some c"
    by (auto simp: turns_page_def split: option.splits)
  then show ?thesis
    using assms(2) by (simp add: session_get_scripted scan_items_no_match)
qed

lemma conversation_loop_advance:
  assumes "\<forall>p \<in> set ps. turns_page rt name p" "sl_remote w = ps @ rest" "length ps \<le> n"
  shows "\<exists>w' new. conversation_loop n scripted lm url rt name (Some a) w =
               conversation_loop (n - length ps) scripted lm url rt name (Some a) w'
           \<and> sl_remote w' = rest
           \<and> sl_requests w' = sl_requests w @ new
           \<and> map fst new = replicate (length ps) url
           \<and> logged w' = logged w
           \<and> next_free w' = next_free w
           \<and> (\<forall>b. b \<noteq> a \<longrightarrow> heap w' b = heap w b)"
  using assms
proof (induction ps arbitrary: n w)
  case Nil
  then show ?case by auto
next
  case (Cons p ps)
  from Cons.prems(3) obtain m where n: "n = Suc m" by (cases n) auto
  let ?w1 = "w\<lparr>sl_remote := ps @ rest, sl_requests := sl_requests w @ [(url, heap w a)]\<rparr>"
  from Cons.prems have tp: "turns_page rt name p" and rem: "sl_remote w = p # (ps @ rest)" by simp_all
  from conversation_loop_turn [OF tp rem, of m lm url a]
  obtain c where step: "conversation_loop n scripted lm url rt name (Some a) w =
         conversation_loop m scripted lm url rt name (Some a) (setitem a ''cursor'' (PStr c) ?w1)"
    using n by auto
  let ?w2 = "setitem a ''cursor'' (PStr c) ?w1"
  have "\<exists>w' new. conversation_loop m scripted lm url rt name (Some a) ?w2 =
               conversation_loop (m - length ps) scripted lm url rt name (Some a) w'
           \<and> sl_remote w' = rest
           \<and> sl_requests w' = sl_requests ?w2 @ new
           \<and> map fst new = replicate (length ps) url
           \<and> logged w' = logged ?w2
           \<and> next_free w' = next_free ?w2
           \<and> (\<forall>b. b \<noteq> a \<longrightarrow> heap w' b = heap ?w2 b)"
  proof (rule Cons.IH)
    show "\<forall>p\<in>set ps. turns_page rt name p" using Cons.prems(1) by simp
    show "sl_remote ?w2 = ps @ rest" by (simp add: setitem_def)
    show "length ps \<le> m" using Cons.prems(3) n by simp
  qed
  then obtain w' new where w': "conversation_loop m scripted lm url rt name (Some a) ?w2 =
               conversation_loop (m - length ps) scripted lm url rt name (Some a) w'"
      "sl_remote w' = rest"
      "sl_requests w' = sl_requests ?w2 @ new"
      "map fst new = replicate (length ps) url"
      "logged w' = logged ?w2"
      "next_free w' = next_free ?w2"
      "\<forall>b. b \<noteq> a \<longrightarrow> heap w' b = heap ?w2 b" by blast
  have "conversation_loop n scripted lm url rt name (Some a) w =
          conversation_loop (n - length (p # ps)) scripted lm url rt name (Some a) w'"
    using step w'(1) n by simp
  moreover have "sl_requests w' = sl_requests w @ ((url, heap w a) # new)"
    using w'(3) by (simp add: setitem_def)
  moreover have "map fst ((url, heap w a) # new) = replicate (length (p # ps)) url"
    using w'(4) by simp
  moreover have "logged w' = logged w" "next_free w' = next_free w"
    using w'(5,6) by (simp_all add: setitem_def)
  moreover have "\<forall>b. b \<noteq> a \<longrightarrow> heap w' b = heap w b"
    using w'(7) by (simp add: setitem_def)
  ultimately show ?case using w'(2) by blast
qed

lemma conversation_loop_bound:
  "length (sl_requests (snd (conversation_loop n get lm url rt name np w)))
     \<le> length (sl_requests w) + n"
proof (induction n arbitrary: np w)
  case 0
  then show ?case by simp
next
  case (Suc n)
  show ?case
  proof (cases np)
    case None
    then show ?thesis by simp
  next
    case (Some a)
    obtain r w1 where g: "session_get get url a w = (r, w1)" by (cases "session_get get url a w")
    have l1: "length (sl_requests w1) = Suc (length (sl_requests w))"
      using session_get_frame [of get url a w] g by simp
    have ih: "length (sl_requests (snd (conversation_loop n get lm url rt name np' w')))
                \<le> length (sl_requests w') + n" for np' w'
      by (rule Suc.IH)
    have s: "sl_requests (setitem a k v w1) = sl_requests w1" for k v
      by (simp add: setitem_def)
    have lg: "sl_requests (logger_info m e w1) = sl_requests w1" for m e
      by (simp add: logger_info_def)
    show ?thesis
    proof (cases r)
      case (Inl e)
      with Some g l1 show ?thesis by simp
    next
      case (Inr resp)
      show ?thesis
        using Some g l1 Inr lg
          ih [of None w1]
          ih [of "Some a" "setitem a ''cursor'' (PStr (the (get_next_cursor resp))) w1"]
        by (auto simp: s split: option.splits sum.splits)
    qed
  qed
qed

lemma conversation_loop_frame:
  "np \<noteq> Some b \<Longrightarrow>
   heap (snd (conversation_loop n get lm url rt name np w)) b = heap w b
   \<and> next_free (snd (conversation_loop n get lm url rt name np w)) = next_free w"
proof (induction n arbitrary: w)
  case 0
  then show ?case by simp
next
  case (Suc n)
  show ?case
  proof (cases np)
    case None
    then show ?thesis by simp
  next
    case (Some a)
    with Suc.prems have ab: "a \<noteq> b" by simp
    obtain r w1 where g: "session_get get url a w = (r, w1)" by (cases "session_get get url a w")
    have f1: "heap w1 = heap w" "next_free w1 = next_free w"
      using session_get_frame [of get url a w] g by simp_all
    have ih: "heap (snd (conversation_loop n get lm url rt name np w')) b = heap w' b
            \<and> next_free (snd (conversation_loop n get lm url rt name np w')) = next_free w'" for w'
      using Suc.IH [OF Suc.prems] .
    have s: "heap (setitem a k v w1) b = heap w1 b" "next_free (setitem a k v w1) = next_free w1" for k v
      using ab by (simp_all add: setitem_def)
    have lg: "heap (logger_info m e w1) = heap w1" "next_free (logger_info m e w1) = next_free w1" for m e
      by (simp_all add: logger_info_def)
    show ?thesis
    proof (cases r)
      case (Inl e)
      with Some g f1 show ?thesis by simp
    next
      case (Inr resp)
      show ?thesis
        using Some g f1 Inr lg
          ih [of "setitem a ''cursor'' (PStr (the (get_next_cursor resp))) w1"]
        by (auto simp: s conversation_loop_None split: option.splits sum.splits)
    qed
  qed
qed

lemma conversation_loop_rejected:
  assumes "\<not> truthy_ok (ok q)" "sl_remote w = q # rest"
  shows "conversation_loop (Suc k) scripted lm url rt name (Some a) w =
     (Inr (None, True),
      w\<lparr>sl_remote := rest, sl_requests := sl_requests w @ [(url, heap w a)],
        logged := logged w @ [(lm, error q)]\<rparr>)"
  using assms by (simp add: session_get_scripted logger_info_def)


lemma conversation_loop_final:
  assumes "final_page rt name q" "sl_remote w = q # rest"
  shows "conversation_loop (Suc k) scripted lm url rt name (Some a) w =
     (Inr (None, False),
      w\<lparr>sl_remote := rest, sl_requests := sl_requests w @ [(url, heap w a)]\<rparr>)"
proof -
  from assms(1) obtain cs where
    "truthy_ok (ok q)" "resources q rt = Some cs" "no_match name cs" "get_next_cursor q = None"
    by (auto simp: final_page_def split: option.splits)
  then show ?thesis
    using assms(2) by (simp add: session_get_scripted scan_items_no_match conversation_loop_None)
qed

lemma find_matching_conversation_last:
  assumes "\<forall>p \<in> set ps. turns_page rt name p" "length ps < MAX_ITERATIONS"
    and "sl_remote w = ps @ q # rest"
    and step: "\<And>k a w0. sl_remote w0 = q # rest \<Longrightarrow>
       conversation_loop (Suc k) scripted lm url rt name (Some a) w0 =
         (R, w0\<lparr>sl_remote := rest, sl_requests := sl_requests w0 @ [(url, heap w0 a)],
                logged := logged w0 @ L\<rparr>)"
  shows "\<exists>w'. find_matching_conversation scripted lm url rt name a w = (R, w')
           \<and> sl_remote w' = rest \<and> traversed url (Suc (length ps)) w w'
           \<and> logged w' = logged w @ L"
proof -
  let ?c = "next_free w"
  let ?w1 = "w\<lparr>heap := (heap w)(?c := heap w a), next_free := Suc ?c\<rparr>"
  have fm: "find_matching_conversation scripted lm url rt name a w =
              conversation_loop MAX_ITERATIONS scripted lm url rt name (Some ?c) ?w1"
    by (simp add: find_matching_conversation_def deepcopy_def alloc_def)
  have rem1: "sl_remote ?w1 = ps @ (q # rest)" using assms(3) by simp
  from conversation_loop_advance [OF assms(1) rem1, of MAX_ITERATIONS lm url ?c] assms(2)
  obtain w2 new where w2:
    "conversation_loop MAX_ITERATIONS scripted lm url rt name (Some ?c) ?w1 =
       conversation_loop (MAX_ITERATIONS - length ps) scripted lm url rt name (Some ?c) w2"
    "sl_remote w2 = q # rest" "sl_requests w2 = sl_requests ?w1 @ new"
    "map fst new = replicate (length ps) url" "logged w2 = logged ?w1"
    "next_free w2 = next_free ?w1" "\<forall>b. b \<noteq> ?c \<longrightarrow> heap w2 b = heap ?w1 b"
    by auto
  from assms(2) obtain k where k: "MAX_ITERATIONS - length ps = Suc k"
    by (cases "MAX_ITERATIONS - length ps") auto
  let ?w3 = "w2\<lparr>sl_remote := rest, sl_requests := sl_requests w2 @ [(url, heap w2 ?c)],
                logged := logged w2 @ L\<rparr>"
  have res: "find_matching_conversation scripted lm url rt name a w = (R, ?w3)"
    using fm w2(1) k step [OF w2(2), of k ?c] by simp
  have "sl_requests ?w3 = sl_requests w @ (new @ [(url, heap w2 ?c)])"
    using w2(3) by simp
  moreover have "map fst (new @ [(url, heap w2 ?c)]) = replicate (Suc (length ps)) url"
    using w2(4) by (simp add: replicate_append_same)
  ultimately have tr: "traversed url (Suc (length ps)) w ?w3"
    unfolding traversed_def using w2(6,7) by auto
  have "logged ?w3 = logged w @ L" using w2(5) by simp
  with res tr show ?thesis by auto
qed

lemma find_matching_conversation_capped:
  assumes "\<forall>p \<in> set ps. turns_page rt name p" "length ps = MAX_ITERATIONS"
    and "sl_remote w = ps @ rest"
  shows "\<exists>w'. find_matching_conversation scripted lm url rt name a w = (Inr (None, False), w')
           \<and> sl_remote w' = rest \<and> traversed url MAX_ITERATIONS w w'
           \<and> logged w' = logged w"
proof -
  let ?c = "next_free w"
  let ?w1 = "w\<lparr>heap := (heap w)(?c := heap w a), next_free := Suc ?c\<rparr>"
  have fm: "find_matching_conversation scripted lm url rt name a w =
              conversation_loop MAX_ITERATIONS scripted lm url rt name (Some ?c) ?w1"
    by (simp add: find_matching_conversation_def deepcopy_def alloc_def)
  have rem1: "sl_remote ?w1 = ps @ rest" using assms(3) by simp
  from conversation_loop_advance [OF assms(1) rem1, of MAX_ITERATIONS lm url ?c] assms(2)
  obtain w2 new where w2:
    "conversation_loop MAX_ITERATIONS scripted lm url rt name (Some ?c) ?w1 =
       conversation_loop (MAX_ITERATIONS - length ps) scripted lm url rt name (Some ?c) w2"
    "sl_remote w2 = rest" "sl_requests w2 = sl_requests ?w1 @ new"
    "map fst new = replicate (length ps) url" "logged w2 = logged ?w1"
    "next_free w2 = next_free ?w1" "\<forall>b. b \<noteq> ?c \<longrightarrow> heap w2 b = heap ?w1 b"
    by auto
  have res: "find_matching_conversation scripted lm url rt name a w = (Inr (None, False), w2)"
    using fm w2(1) assms(2) by simp
  have tr: "traversed url MAX_ITERATIONS w w2"
    unfolding traversed_def using w2(3,4,6,7) assms(2) by auto
  from res tr w2(2,5) show ?thesis by auto
qed

lemma find_matching_conversation_rejected:
  assumes "\<forall>p \<in> set ps. turns_page rt name p" "length ps < MAX_ITERATIONS"
    and "\<not> truthy_ok (ok bad)" "sl_remote w = ps @ bad # rest"
  shows "\<exists>w'. find_matching_conversation scripted lm url rt name a w = (Inr (None, True), w')
           \<and> sl_remote w' = rest \<and> traversed url (Suc (length ps)) w w'
           \<and> logged w' = logged w @ [(lm, error bad)]"
  by (rule find_matching_conversation_last [OF assms(1,2,4)])
     (rule conversation_loop_rejected [OF assms(3)])


lemma find_matching_conversation_final:
  assumes "\<forall>p \<in> set ps. turns_page rt name p" "length ps < MAX_ITERATIONS"
    and "final_page rt name q" "sl_remote w = ps @ q # rest"
  shows "\<exists>w'. find_matching_conversation scripted lm url rt name a w = (Inr (None, False), w')
           \<and> sl_remote w' = rest \<and> traversed url (Suc (length ps)) w w'
           \<and> logged w' = logged w"
proof -
  have step: "conversation_loop (Suc k) scripted lm url rt name (Some a) w0 =
         (Inr (None, False), w0\<lparr>sl_remote := rest, sl_requests := sl_requests w0 @ [(url, heap w0 a)],
                logged := logged w0 @ []\<rparr>)" if "sl_remote w0 = q # rest" for k a w0
    using conversation_loop_final [OF assms(3) that, of k lm url a] by simp
  from find_matching_conversation_last [OF assms(1,2,4) step, of a]
  show ?thesis by simp
qed

lemma traversed_length:
  "traversed url k w w' \<Longrightarrow> length (sl_requests w') = length (sl_requests w) + k"
proof -
  assume "traversed url k w w'"
  then obtain new where "sl_requests w' = sl_requests w @ new" "map fst new = replicate k url"
    by (auto simp: traversed_def)
  then have "length new = k" "length (sl_requests w') = length (sl_requests w) + length new"
    by (metis length_map length_replicate, simp)
  then show ?thesis by simp
qed

lemma find_matching_conversation_bound:
  "length (sl_requests (snd (find_matching_conversation get lm url rt name a w)))
     \<le> length (sl_requests w) + MAX_ITERATIONS"
  using conversation_loop_bound [of MAX_ITERATIONS get lm url rt name "Some (next_free w)"
      "w\<lparr>heap := (heap w)(next_free w := heap w a), next_free := Suc (next_free w)\<rparr>"]
  by (simp add: find_matching_conversation_def deepcopy_def alloc_def)

lemma find_matching_conversation_frame:
  "b \<noteq> next_free w \<Longrightarrow>
   heap (snd (find_matching_conversation get lm url rt name a w)) b = heap w b"
  "next_free (snd (find_matching_conversation get lm url rt name a w)) = Suc (next_free w)"
  using conversation_loop_frame [of "Some (next_free w)" b MAX_ITERATIONS get lm url rt name
      "w\<lparr>heap := (heap w)(next_free w := heap w a), next_free := Suc (next_free w)\<rparr>"]
    conversation_loop_frame [of "Some (next_free w)" "Suc (next_free w)" MAX_ITERATIONS get lm url rt name
      "w\<lparr>heap := (heap w)(next_free w := heap w a), next_free := Suc (next_free w)\<rparr>"]
  by (simp_all add: find_matching_conversation_def deepcopy_def alloc_def)

lemma conversation_loop_extends:
  "\<exists>more. sl_requests (snd (conversation_loop n get lm url rt name np w)) = sl_requests w @ more"
proof (induction n arbitrary: np w)
  case 0
  then show ?case by simp
next
  case (Suc n)
  show ?case
  proof (cases np)
    case None
    then show ?thesis by simp
  next
    case (Some c)
    obtain r w1 where g: "session_get get url c w = (r, w1)"
      by (cases "session_get get url c w")
    have r1: "sl_requests w1 = sl_requests w @ [(url, heap w c)]"
      using session_get_frame [of get url c w] g by simp
    have lg: "sl_requests (logger_info m e w1) = sl_requests w @ [(url, heap w c)]" for m e
      by (simp add: logger_info_def r1)
    have "\<exists>m. sl_requests (snd (conversation_loop n get lm url rt name (Some c)
                    (setitem c ''cursor'' (PStr x) w1))) = sl_requests w @ (url, heap w c) # m" for x
    proof -
      let ?w2 = "setitem c ''cursor'' (PStr x) w1"
      from Suc.IH [of "Some c" ?w2] obtain more where
        "sl_requests (snd (conversation_loop n get lm url rt name (Some c) ?w2))
           = sl_requests ?w2 @ more" by blast
      moreover have "sl_requests ?w2 = sl_requests w @ [(url, heap w c)]"
        by (simp add: setitem_def r1)
      ultimately show ?thesis by simp
    qed
    then obtain f where f: "\<And>x. sl_requests (snd (conversation_loop n get lm url rt name (Some c)
                    (setitem c ''cursor'' (PStr x) w1))) = sl_requests w @ (url, heap w c) # f x"
      by metis
    show ?thesis
      using Some g r1 lg f
      by (auto simp: conversation_loop_None split: option.splits sum.splits)
  qed
qed

lemma conversation_loop_first_request:
  "\<exists>more. sl_requests (snd (conversation_loop (Suc n) get lm url rt name (Some a) w))
     = sl_requests w @ (url, heap w a) # more"
proof -
  obtain r w1 where g: "session_get get url a w = (r, w1)" by (cases "session_get get url a w")
  have r1: "sl_requests w1 = sl_requests w @ [(url, heap w a)]"
    using session_get_frame [of get url a w] g by simp
  have lg: "sl_requests (logger_info m e w1) = sl_requests w @ [(url, heap w a)]" for m e
    by (simp add: logger_info_def r1)
  have "\<exists>m. sl_requests (snd (conversation_loop n get lm url rt name (Some a)
                (setitem a ''cursor'' (PStr x) w1))) = sl_requests w @ (url, heap w a) # m" for x
  proof -
    let ?w2 = "setitem a ''cursor'' (PStr x) w1"
    from conversation_loop_extends [of n get lm url rt name "Some a" ?w2] obtain more where
      "sl_requests (snd (conversation_loop n get lm url rt name (Some a) ?w2))
         = sl_requests ?w2 @ more" by blast
    moreover have "sl_requests ?w2 = sl_requests w @ [(url, heap w a)]"
      by (simp add: setitem_def r1)
    ultimately show ?thesis by simp
  qed
  then obtain f where f: "\<And>x. sl_requests (snd (conversation_loop n get lm url rt name (Some a)
                (setitem a ''cursor'' (PStr x) w1))) = sl_requests w @ (url, heap w a) # f x"
    by metis
  show ?thesis
    using g r1 lg f
    by (auto simp: conversation_loop_None split: option.splits sum.splits)
qed

lemma find_matching_conversation_frameD:
  assumes "find_matching_conversation get lm url rt name a w = (r, w')"
  shows "next_free w' = Suc (next_free w) \<and> (\<forall>b. b \<noteq> next_free w \<longrightarrow> heap w' b = heap w b)"
proof -
  have "w' = snd (find_matching_conversation get lm url rt name a w)" using assms by simp
  then show ?thesis by (simp add: find_matching_conversation_frame)
qed

lemma get_channel_id_payload_kept:
  assumes "md ''access_token'' = Some tok"
  shows "heap (snd (get_channel_id get (Some md) name w)) (Suc (next_free w)) = channels_payload_of tok"
proof -
  let ?c0 = "next_free w"
  let ?w0 = "w\<lparr>heap := (heap w)(?c0 := [(''token'', PStr tok)]), next_free := Suc ?c0\<rparr>"
  let ?w1 = "?w0\<lparr>heap := (heap ?w0)(Suc ?c0 := channels_payload_of tok), next_free := Suc (Suc ?c0)\<rparr>"
  have a0: "alloc [(''token'', PStr tok)] w = (?c0, ?w0)" by (simp add: alloc_def)
  have a1: "alloc (AList.update ''exclude_members'' (PBool True)
                    (AList.update ''exclude_archived'' (PBool False) (heap ?w0 ?c0))) ?w0
              = (Suc ?c0, ?w1)"
    by (simp add: alloc_def channels_payload_of_def)
  obtain r2 w2 where c2: "find_matching_channel get name (Suc ?c0) ?w1 = (r2, w2)"
    by (cases "find_matching_channel get name (Suc ?c0) ?w1")
  obtain r3 w3 where c3: "find_matching_group get name (Suc ?c0) w2 = (r3, w3)"
    by (cases "find_matching_group get name (Suc ?c0) w2")
  obtain r4 w4 where c4: "find_matching_user get name (Suc ?c0) w3 = (r4, w4)"
    by (cases "find_matching_user get name (Suc ?c0) w3")
  have h1: "heap ?w1 (Suc ?c0) = channels_payload_of tok" "next_free ?w1 = Suc (Suc ?c0)" by simp_all
  have h2: "heap w2 (Suc ?c0) = channels_payload_of tok" "next_free w2 = Suc (Suc (Suc ?c0))"
    using find_matching_conversation_frameD [OF c2 [unfolded find_matching_channel_def]]
    by simp_all
  have h3: "heap w3 (Suc ?c0) = channels_payload_of tok" "next_free w3 = Suc (Suc (Suc (Suc ?c0)))"
    using find_matching_conversation_frameD [OF c3 [unfolded find_matching_group_def]] h2
    by simp_all
  have h4: "heap w4 (Suc ?c0) = channels_payload_of tok"
    using find_matching_conversation_frameD [OF c4 [unfolded find_matching_user_def]] h3
    by simp
  show ?thesis
    unfolding get_channel_id_def
    using assms h2(1) h3(1) h4
    by (simp only: option.case a0 a1 prod.case c2 c3 c4)
       (auto simp: h1 split: sum.splits prod.splits)
qed

lemma turns_other_channels_page: "turns_page ''channels'' ''eng'' other_channels_page"
  by (simp add: turns_page_def other_channels_page_def page_with_def truthy_ok_def no_match_def
      conversation_def get_next_cursor_def)

lemma rejected_page_not_ok: "\<not> truthy_ok (ok rejected_page)"
  by (simp add: rejected_page_def truthy_ok_def)




























section \<open>Lemmas on dates, formats and the token\<close>

lemma digit_char_props:
  "d < 10 \<Longrightarrow> is_digit (digit_char d) \<and> digit_val (digit_char d) = d"
  by (simp add: is_digit_def digit_val_def digit_char_def)

lemma digit_char_0: "CHR ''0'' = digit_char 0"
  by (simp add: digit_char_def char_of_def bit_Suc_0_iff)

lemma lower_T: "lower CHR ''T'' = CHR ''t''"
  by (simp add: lower_def char_of_def bit_Suc_0_iff)

lemma dec_small: "n < 10 \<Longrightarrow> dec n = [digit_char n]"
  by (simp add: dec.simps)

lemma zpad2: "n < 100 \<Longrightarrow> zpad 2 n = [digit_char (n div 10), digit_char (n mod 10)]"
proof (cases "n < 10")
  case True
  then show ?thesis by (simp add: zpad_def dec_small digit_char_0)
next
  case False
  assume "n < 100"
  with False have "dec n = [digit_char (n div 10), digit_char (n mod 10)]"
    by (subst dec.simps) (simp add: dec_small)
  then show ?thesis by (simp add: zpad_def)
qed

lemma dec3: "100 \<le> n \<Longrightarrow> n < 1000 \<Longrightarrow>
  dec n = [digit_char (n div 100), digit_char (n div 10 mod 10), digit_char (n mod 10)]"
proof -
  assume a: "100 \<le> n" "n < 1000"
  then have "n div 10 < 100" "\<not> n div 10 < 10" "n div 10 div 10 = n div 100" by simp_all
  then have "dec (n div 10) = [digit_char (n div 100), digit_char (n div 10 mod 10)]"
    by (subst dec.simps) (simp add: dec_small)
  with a show ?thesis by (subst dec.simps) simp
qed

lemma dec4: "1000 \<le> n \<Longrightarrow> n < 10000 \<Longrightarrow>
  dec n = [digit_char (n div 1000), digit_char (n div 100 mod 10),
           digit_char (n div 10 mod 10), digit_char (n mod 10)]"
proof -
  assume a: "1000 \<le> n" "n < 10000"
  then have "100 \<le> n div 10" "n div 10 < 1000" "n div 10 div 100 = n div 1000"
    "n div 10 div 10 = n div 100" by simp_all
  then have "dec (n div 10) = [digit_char (n div 1000), digit_char (n div 100 mod 10),
           digit_char (n div 10 mod 10)]"
    using dec3 [of "n div 10"] by simp
  with a show ?thesis by (subst dec.simps) simp
qed

lemma zpad4: "n < 10000 \<Longrightarrow>
  zpad 4 n = [digit_char (n div 1000), digit_char (n div 100 mod 10),
              digit_char (n div 10 mod 10), digit_char (n mod 10)]"
proof -
  assume a: "n < 10000"
  consider "n < 10" | "10 \<le> n" "n < 100" | "100 \<le> n" "n < 1000" | "1000 \<le> n" by linarith
  then show ?thesis
  proof cases
    case 1
    then show ?thesis by (simp add: zpad_def dec_small digit_char_0 numeral_3_eq_3)
  next
    case 2
    then have "dec n = [digit_char (n div 10), digit_char (n mod 10)]"
      by (subst dec.simps) (simp add: dec_small)
    with 2 show ?thesis by (simp add: zpad_def digit_char_0 numeral_2_eq_2)
  next
    case 3
    then show ?thesis by (simp add: zpad_def dec3 digit_char_0)
  next
    case 4
    with a show ?thesis by (simp add: zpad_def dec4)
  qed
qed

lemma read_number_two:
  assumes "n < 100" "lo \<le> n" "n \<le> hi"
  shows "read_number (Suc 0) 2 lo hi (digit_char (n div 10) # digit_char (n mod 10) # rest) = Some (n, rest)"
proof -
  have a: "n div 10 < 10" "n mod 10 < 10" using assms by simp_all
  have "digits_val [digit_char (n div 10), digit_char (n mod 10)] = n"
    using a by (simp add: digits_val_def digit_char_props)
  then show ?thesis
    using a assms by (simp add: read_number_def digit_char_props Let_def)
qed

lemma read_number_four:
  assumes "n < 10000"
  shows "read_number 4 4 0 9999 (digit_char (n div 1000) # digit_char (n div 100 mod 10)
            # digit_char (n div 10 mod 10) # digit_char (n mod 10) # rest) = Some (n, rest)"
proof -
  have a: "n div 1000 < 10" "n div 100 mod 10 < 10" "n div 10 mod 10 < 10" "n mod 10 < 10"
    using assms by simp_all
  have "digits_val [digit_char (n div 1000), digit_char (n div 100 mod 10),
            digit_char (n div 10 mod 10), digit_char (n mod 10)]
        = 10 * (10 * (10 * (n div 1000) + n div 100 mod 10) + n div 10 mod 10) + n mod 10"
    using a by (simp add: digits_val_def digit_char_props)
  also have "\<dots> = n"
  proof -
    have d1: "n div 100 div 10 = n div 1000" and d2: "n div 10 div 10 = n div 100"
      by (simp_all add: div_mult2_eq [symmetric])
    have "10 * (n div 100 div 10) + n div 100 mod 10 = n div 100"
         "10 * (n div 10 div 10) + n div 10 mod 10 = n div 10"
         "10 * (n div 10) + n mod 10 = n"
      by (rule mult_div_mod_eq)+
    then show ?thesis by (simp add: d1 d2)
  qed
  finally have v: "digits_val [digit_char (n div 1000), digit_char (n div 100 mod 10),
            digit_char (n div 10 mod 10), digit_char (n mod 10)] = n" .
  have t: "take 4 (digit_char (n div 1000) # digit_char (n div 100 mod 10)
            # digit_char (n div 10 mod 10) # digit_char (n mod 10) # rest)
          = [digit_char (n div 1000), digit_char (n div 100 mod 10),
            digit_char (n div 10 mod 10), digit_char (n mod 10)]"
    by simp
  show ?thesis
    unfolding read_number_def t Let_def
    using a assms v by (simp add: digit_char_props)
qed

lemma read_day_two:
  assumes "n < 100" "1 \<le> n" "n \<le> 31"
  shows "read_day (digit_char (n div 10) # digit_char (n mod 10) # rest) = Some (n, rest)"
  using assms by (simp add: read_day_def read_number_two)

lemma lower_plain: "lower CHR ''-'' = CHR ''-''" "lower CHR '':'' = CHR '':''"
  by (simp_all add: lower_def)

lemma parse_format_plain:
  "parse_format ''%Y-%m-%dT%H:%M:%S'' =
    [Directive CHR ''Y'', Literal CHR ''-'', Directive CHR ''m'',
     Literal CHR ''-'', Directive CHR ''d'', Literal CHR ''T'',
     Directive CHR ''H'', Literal CHR '':'', Directive CHR ''M'',
     Literal CHR '':'', Directive CHR ''S'']"
  by simp

lemma read_Y:
  "n < 10000 \<Longrightarrow> read_directive CHR ''Y'' (zpad 4 n @ rest) d = Some (d\<lparr>year := n\<rparr>, rest)"
  by (simp add: read_directive_def zpad4 read_number_four)

lemma read_m:
  "1 \<le> n \<Longrightarrow> n \<le> 12 \<Longrightarrow> read_directive CHR ''m'' (zpad 2 n @ rest) d = Some (d\<lparr>month := n\<rparr>, rest)"
  by (simp add: read_directive_def zpad2 read_number_two)

lemma read_d:
  "1 \<le> n \<Longrightarrow> n \<le> 31 \<Longrightarrow> read_directive CHR ''d'' (zpad 2 n @ rest) d = Some (d\<lparr>day := n\<rparr>, rest)"
  by (simp add: read_directive_def zpad2 read_day_two)

lemma read_H:
  "n \<le> 23 \<Longrightarrow> read_directive CHR ''H'' (zpad 2 n @ rest) d = Some (d\<lparr>hour := n\<rparr>, rest)"
  by (simp add: read_directive_def zpad2 read_number_two)

lemma read_M:
  "n \<le> 59 \<Longrightarrow> read_directive CHR ''M'' (zpad 2 n @ rest) d = Some (d\<lparr>minute := n\<rparr>, rest)"
  by (simp add: read_directive_def zpad2 read_number_two)

lemma read_S:
  "n \<le> 59 \<Longrightarrow> read_directive CHR ''S'' (zpad 2 n @ rest) d = Some (d\<lparr>second := n\<rparr>, rest)"
  by (simp add: read_directive_def zpad2 read_number_two)

lemma run_literal:
  "lower x = lower c \<Longrightarrow> run_format (Literal c # fs) (x # rest) d = run_format fs rest d"
  by simp

lemma run_directive:
  "read_directive c s d = Some (d', rest) \<Longrightarrow> run_format (Directive c # fs) s d = run_format fs rest d'"
  by simp

lemma isoformat_whole_second:
  "microsecond d = 0 \<Longrightarrow>
   isoformat d @ rest = zpad 4 (year d) @ CHR ''-'' # zpad 2 (month d) @ CHR ''-'' # zpad 2 (day d)
      @ CHR ''T'' # zpad 2 (hour d) @ CHR '':'' # zpad 2 (minute d) @ CHR '':'' # zpad 2 (second d) @ rest"
  by (simp add: isoformat_def)

lemma run_format_isoformat:
  assumes "valid_datetime d" "microsecond d = 0"
  shows "run_format (Directive CHR ''Y'' # Literal CHR ''-'' # Directive CHR ''m'' #
     Literal CHR ''-'' # Directive CHR ''d'' # Literal CHR ''T'' #
     Directive CHR ''H'' # Literal CHR '':'' # Directive CHR ''M'' #
     Literal CHR '':'' # Directive CHR ''S'' # fs) (isoformat d @ rest) d0
           = run_format fs rest (d0\<lparr>year := year d, month := month d, day := day d, hour := hour d,
                      minute := minute d, second := second d\<rparr>)"
proof -
  have r: "year d < 10000" "1 \<le> month d" "month d \<le> 12"
    "1 \<le> day d" "day d \<le> 31" "hour d \<le> 23" "minute d \<le> 59" "second d \<le> 59"
    using assms(1) by (auto simp: valid_datetime_def days_in_month_def split: if_splits)
  show ?thesis
    unfolding isoformat_whole_second [OF assms(2)]
    by (simp only: run_directive [OF read_Y [OF r(1)]] run_directive [OF read_m [OF r(2,3)]]
        run_directive [OF read_d [OF r(4,5)]] run_directive [OF read_H [OF r(6)]]
        run_directive [OF read_M [OF r(7)]] run_directive [OF read_S [OF r(8)]]
        run_literal [OF refl])
qed

lemma datetime_rebuild:
  "microsecond d = 0 \<Longrightarrow>
   \<lparr>year = 1900, month = 1, day = 1, hour = 0, minute = 0, second = 0, microsecond = 0\<rparr>
     \<lparr>year := year d, month := month d, day := day d, hour := hour d,
      minute := minute d, second := second d\<rparr> = d"
  by simp

lemma strptime_isoformat:
  assumes "valid_datetime d" "microsecond d = 0"
  shows "strptime (isoformat d) ''%Y-%m-%dT%H:%M:%S'' = Inr d"
proof -
  let ?d0 = "\<lparr>year = 1900, month = 1, day = 1, hour = 0, minute = 0, second = 0, microsecond = 0\<rparr>"
  have "run_format (parse_format ''%Y-%m-%dT%H:%M:%S'') (isoformat d @ []) ?d0 =
          Some (?d0\<lparr>year := year d, month := month d, day := day d, hour := hour d,
                      minute := minute d, second := second d\<rparr>)"
    unfolding parse_format_plain run_format_isoformat [OF assms] by simp
  then have rf: "run_format (parse_format ''%Y-%m-%dT%H:%M:%S'') (isoformat d) ?d0 = Some d"
    by (simp only: datetime_rebuild [OF assms(2)] append_Nil2)
  show ?thesis
    unfolding strptime_def rf using assms(1) by simp
qed

lemma parse_format_zulu:
  "parse_format ''%Y-%m-%dT%H:%M:%SZ'' =
    [Directive CHR ''Y'', Literal CHR ''-'', Directive CHR ''m'',
     Literal CHR ''-'', Directive CHR ''d'', Literal CHR ''T'',
     Directive CHR ''H'', Literal CHR '':'', Directive CHR ''M'',
     Literal CHR '':'', Directive CHR ''S'', Literal CHR ''Z'']"
  by simp

lemma strptime_isoformat_zulu:
  assumes "valid_datetime d" "microsecond d = 0"
  shows "strptime (isoformat d @ ''Z'') ''%Y-%m-%dT%H:%M:%SZ'' = Inr d"
proof -
  let ?d0 = "\<lparr>year = 1900, month = 1, day = 1, hour = 0, minute = 0, second = 0, microsecond = 0\<rparr>"
  have "run_format (parse_format ''%Y-%m-%dT%H:%M:%SZ'') (isoformat d @ ''Z'') ?d0 =
          Some (?d0\<lparr>year := year d, month := month d, day := day d, hour := hour d,
                      minute := minute d, second := second d\<rparr>)"
    unfolding parse_format_zulu run_format_isoformat [OF assms] by simp
  then have rf: "run_format (parse_format ''%Y-%m-%dT%H:%M:%SZ'') (isoformat d @ ''Z'') ?d0 = Some d"
    by (simp only: datetime_rebuild [OF assms(2)])
  show ?thesis
    unfolding strptime_def rf using assms(1) by simp
qed

lemma read_directive_microsecond:
  "read_directive c s d = Some (d', rest) \<Longrightarrow> microsecond d' = microsecond d"
  by (auto simp: read_directive_def split: if_splits)

lemma run_format_microsecond:
  "run_format fs s d = Some d' \<Longrightarrow> microsecond d' = microsecond d"
proof (induction fs s d rule: run_format.induct)
  case (1 s d)
  then show ?case by (simp split: if_splits)
next
  case (2 c fs s d)
  then show ?case by (auto split: list.splits if_splits)
next
  case (3 c fs s d)
  then show ?case by (auto split: option.splits dest: read_directive_microsecond)
qed

lemma strptime_valid:
  "strptime s format = Inr d \<Longrightarrow> valid_datetime d \<and> microsecond d = 0"
  by (auto simp: strptime_def split: option.splits if_splits dest: run_format_microsecond)

lemma create_token_posts:
  "create_token post jwt w = (r, w1) \<Longrightarrow>
   posts w1 = posts w @ [(''/installations/'' @ external_id w @ ''/access_tokens'',
                 [(''Authorization'', ''Bearer '' @ jwt),
                  (''Accept'', ''application/vnd.github.machine-man-preview+json'')])]
   \<and> metadata w1 = metadata w \<and> saved w1 = saved w"
  by (auto simp: create_token_def Let_def split: prod.splits)

lemma refresh_token_minted:
  assumes "create_token post jwt w = (Inr res, w1)" "res ''token'' = Some t"
    "res ''expires_at'' = Some s" "strptime s ''%Y-%m-%dT%H:%M:%SZ'' = Inr d"
  shows "refresh_token post jwt w =
     (Inr t, w1\<lparr>metadata := (metadata w)(''access_token'' \<mapsto> t, ''expires_at'' \<mapsto> isoformat d),
               saved := saved w @ [(metadata w)(''access_token'' \<mapsto> t, ''expires_at'' \<mapsto> isoformat d)]\<rparr>)"
  using assms create_token_posts [OF assms(1)]
  by (simp add: refresh_token_def Let_def)

lemma get_token_cached:
  assumes "load_expires_at w = Inr (Some e)" "metadata w ''access_token'' = Some t" "t \<noteq> []"
    "\<not> dt_less e now" "\<not> force_refresh"
  shows "get_token post jwt now force_refresh w = (Inr t, w)"
  using assms by (simp add: get_token_def needs_refresh_def truthy_token_def Let_def)

lemma get_token_refreshes:
  assumes "load_expires_at w = Inr exp"
    "needs_refresh (metadata w ''access_token'') exp now force_refresh = Inr True"
  shows "get_token post jwt now force_refresh w = refresh_token post jwt w"
  using assms by (simp add: get_token_def Let_def)

lemma get_token_no_expiry:
  assumes "truthy_token (metadata w ''access_token'')" "metadata w ''expires_at'' = None"
  shows "get_token post jwt now force_refresh w = (Inl TypeError, w)"
  using assms by (simp add: get_token_def load_expires_at_def needs_refresh_def Let_def)

lemma dt_less_irrefl: "\<not> dt_less d d"
  by (simp add: dt_less_def)

lemma digit_chars:
  "digit_char 0 = CHR ''0''" "digit_char 1 = CHR ''1''" "digit_char 2 = CHR ''2''"
  "digit_char 3 = CHR ''3''" "digit_char 4 = CHR ''4''" "digit_char 5 = CHR ''5''"
  "digit_char 6 = CHR ''6''" "digit_char 7 = CHR ''7''" "digit_char 8 = CHR ''8''"
  "digit_char 9 = CHR ''9''" "digit_char (Suc 0) = CHR ''1''"
  by (simp_all add: digit_char_def char_of_def bit_Suc_0_iff)

lemma isoformat_noon: "isoformat noon = ''2018-07-01T12:00:00''"
  by (simp add: isoformat_def noon_def zpad2 zpad4 digit_chars)

lemma isoformat_one_pm: "isoformat one_pm = ''2018-07-01T13:00:00''"
  by (simp add: isoformat_def one_pm_def zpad2 zpad4 digit_chars)

lemma valid_noon: "valid_datetime noon \<and> microsecond noon = 0"
  by (simp add: valid_datetime_def noon_def days_in_month_def)

lemma valid_one_pm: "valid_datetime one_pm \<and> microsecond one_pm = 0"
  by (simp add: valid_datetime_def one_pm_def days_in_month_def)

lemma strptime_noon: "strptime ''2018-07-01T12:00:00'' ''%Y-%m-%dT%H:%M:%S'' = Inr noon"
  using strptime_isoformat [of noon] valid_noon by (simp only: isoformat_noon)

lemma strptime_one_pm: "strptime ''2018-07-01T13:00:00Z'' ''%Y-%m-%dT%H:%M:%SZ'' = Inr one_pm"
  using strptime_isoformat_zulu [of one_pm] valid_one_pm by (simp add: isoformat_one_pm)

lemma load_noon: "load_expires_at (integration_with expiring_at_noon) = Inr (Some noon)"
  by (simp add: load_expires_at_def integration_with_def expiring_at_noon_def strptime_noon)

lemma refresh_token_posts:
  "length (posts (snd (refresh_token post jwt w))) = Suc (length (posts w))"
proof -
  obtain r w1 where c: "create_token post jwt w = (r, w1)" by (cases "create_token post jwt w")
  from create_token_posts [OF c] have "length (posts w1) = Suc (length (posts w))" by simp
  then show ?thesis
    by (simp add: refresh_token_def c Let_def split: sum.splits option.splits)
qed

lemma create_token_example:
  "create_token scripted ''assertion'' (integration_with md) =
     (Inr mint_response,
      (integration_with md)\<lparr>tk_remote := [],
         posts := [(''/installations/42/access_tokens'',
                    [(''Authorization'', ''Bearer assertion''),
                     (''Accept'', ''application/vnd.github.machine-man-preview+json'')])]\<rparr>)"
  by (simp add: create_token_def scripted_def integration_with_def)

section \<open>Properties of the GitHub enumeration\<close>

text \<open>
  Claim C4, as amended.  For every non-empty base URL: when the relation map has
  no \<open>next\<close> entry (or the response has no relation map), \<open>_get_rel_next\<close>
  returns \<open>None\<close> and prints nothing; when the next URL starts with the base URL
  it returns the URL with that prefix stripped; when it does not, it returns
  \<open>None\<close> and prints one line to \<open>stderr\<close>, made of the \<open>repr\<close> of the
  \<open>Link\<close> header, of the offending URL and of the base URL.  No request is sent.
\<close>

theorem get_rel_next_spec:
  assumes "base_url \<noteq> []"
  shows "(next_link response = None \<longrightarrow>
            get_rel_next repr base_url response w = (Inr None, w))
       \<and> (\<forall>u. next_link response = Some u \<and> prefix base_url u \<longrightarrow>
            (\<exists>p. u = base_url @ p \<and> get_rel_next repr base_url response w = (Inr (Some p), w)))
       \<and> (\<forall>u. next_link response = Some u \<and> \<not> prefix base_url u \<longrightarrow>
            fst (get_rel_next repr base_url response w) = Inr None
          \<and> stderr (snd (get_rel_next repr base_url response w)) = stderr w @
              [''Link header '' @ repr (headers response ''Link'')
                @ '' included rel=\"next\" '' @ repr (Some u)
                @ '' that did not start with base URL '' @ repr (Some base_url)]
          \<and> gh_requests (snd (get_rel_next repr base_url response w)) = gh_requests w)"
proof (intro conjI allI impI)
  show "get_rel_next repr base_url response w = (Inr None, w)" if "next_link response = None"
    using that by (rule get_rel_next_no_next)
next
  fix u assume u: "next_link response = Some u \<and> prefix base_url u"
  then obtain p where p: "u = base_url @ p" by (auto simp: prefix_def)
  then have "drop (length base_url) u = p" by simp
  with u assms get_rel_next_stripped [of base_url response u repr w] p
  show "\<exists>p. u = base_url @ p \<and> get_rel_next repr base_url response w = (Inr (Some p), w)"
    by auto
next
  fix u assume u: "next_link response = Some u \<and> \<not> prefix base_url u"
  then have eq: "get_rel_next repr base_url response w =
     (Inr None, w\<lparr>stderr := stderr w @ [BAD_NEXT_REL repr (headers response ''Link'') u base_url]\<rparr>)"
    by (simp add: get_rel_next_foreign)
  show "fst (get_rel_next repr base_url response w) = Inr None" by (simp add: eq)
  show "stderr (snd (get_rel_next repr base_url response w)) = stderr w @
              [''Link header '' @ repr (headers response ''Link'')
                @ '' included rel=\"next\" '' @ repr (Some u)
                @ '' that did not start with base URL '' @ repr (Some base_url)]"
    by (simp add: eq BAD_NEXT_REL_def)
  show "gh_requests (snd (get_rel_next repr base_url response w)) = gh_requests w"
    by (simp add: eq)
qed

text \<open>
  The three cases with the base URL of the client: a page that links on, a page
  whose next URL is on another host, and a last page.
\<close>

theorem get_rel_next_spec_witness:
  "get_rel_next plain_repr github_base_url linked_page (gh_start ())
     = (Inr (Some ''/installation/repositories?page=2''), gh_start ())
   \<and> fst (get_rel_next plain_repr github_base_url stray_page (gh_start ())) = Inr None
   \<and> stderr (snd (get_rel_next plain_repr github_base_url stray_page (gh_start ()))) =
       [''Link header '' @ plain_repr (Some ''<http://x/r?page=2>; rel=\"next\"'')
          @ '' included rel=\"next\" '' @ plain_repr (Some ''http://x/r?page=2'')
          @ '' that did not start with base URL '' @ plain_repr (Some github_base_url)]
   \<and> get_rel_next plain_repr github_base_url last_page (gh_start ()) = (Inr None, gh_start ())"
proof -
  have b: "github_base_url \<noteq> []" by (simp add: github_base_url_def)
  have p1: "prefix github_base_url ''https://api.github.com/installation/repositories?page=2''"
    and p2: "\<not> prefix github_base_url ''http://x/r?page=2''"
    by (simp_all add: github_base_url_def)
  have hl: "headers stray_page ''Link'' = Some ''<http://x/r?page=2>; rel=\"next\"''"
    by (simp add: stray_page_def)
  have se: "stderr (gh_start ()) = []" by (simp add: gh_start_def)
  have "get_rel_next plain_repr github_base_url linked_page (gh_start ())
     = (Inr (Some ''/installation/repositories?page=2''), gh_start ())"
    using get_rel_next_spec [OF b, of linked_page plain_repr "gh_start ()"] p1
    by (auto simp: next_link_examples github_base_url_def)
  moreover have "fst (get_rel_next plain_repr github_base_url stray_page (gh_start ())) = Inr None
   \<and> stderr (snd (get_rel_next plain_repr github_base_url stray_page (gh_start ()))) =
       [''Link header '' @ plain_repr (Some ''<http://x/r?page=2>; rel=\"next\"'')
          @ '' included rel=\"next\" '' @ plain_repr (Some ''http://x/r?page=2'')
          @ '' that did not start with base URL '' @ plain_repr (Some github_base_url)]"
    using get_rel_next_spec [OF b, of stray_page plain_repr "gh_start ()"] p2
    by (simp add: next_link_examples hl se)
  moreover have "get_rel_next plain_repr github_base_url last_page (gh_start ()) = (Inr None, gh_start ())"
    using get_rel_next_spec [OF b, of last_page plain_repr "gh_start ()"]
    by (simp add: next_link_examples)
  ultimately show ?thesis by blast
qed

text \<open>
  Claim C4 as stated ranges over every base URL.  With the empty base URL every
  next URL starts with it, and \<open>next_url.split('', 1)\<close> raises \<open>ValueError\<close>:
  nothing is returned.
\<close>

theorem get_rel_next_empty_base_counterexample:
  "get_rel_next plain_repr [] stray_page (gh_start ()) = (Inl ValueError, gh_start ())"
  by (simp add: get_rel_next_def stray_page_def split_once_def)

text \<open>
  Claim C5, as amended.  For a non-empty base URL and a provider that answers the
  request for the first page, and then the request for each advertised next link
  (with the base URL stripped), with at most 101 pages, each but the last
  advertising its next link under the base URL and the last with no next link:
  \<open>_paging_get_repositories\<close> returns the items of all pages, in the order of
  the pages and of the items in each page; the requests it sends are the one for
  the first page followed by one for each advertised link, in that order, so one
  request per page; and nothing is printed.
\<close>

theorem paging_concatenates_pages:
  assumes "base_url \<noteq> []"
    and "length urls \<le> 100"
    and "map next_link pages = map (\<lambda>u. Some (base_url @ u)) urls @ [None]"
    and "map repositories_of pages = map Some itemss"
    and "replies get (gh_remote w) (first_request # map follow_up urls) = map Inr pages"
  shows "fst (paging_get_repositories get repr base_url w) = Inr (concat itemss)
       \<and> gh_requests (snd (paging_get_repositories get repr base_url w))
           = gh_requests w @ first_request # map follow_up urls
       \<and> length (gh_requests (snd (paging_get_repositories get repr base_url w)))
           = length (gh_requests w) + length pages
       \<and> stderr (snd (paging_get_repositories get repr base_url w)) = stderr w"
proof -
  have m: "length urls \<le> MAX_ITERATIONS" using assms(2) by (simp add: MAX_ITERATIONS_def)
  have len: "length pages = Suc (length urls)"
    using arg_cong [OF assms(3), of length] by simp
  show ?thesis
    using paging_get_repositories_follows [OF assms(1) m assms(3,4,5), of repr] len by simp
qed

text \<open>
  A provider that answers by path, and a site of three pages that link on: the
  second and the third page are reached through the links only.
\<close>

theorem paging_concatenates_pages_witness:
  "fst (paging_get_repositories (served github_site) plain_repr github_base_url (gh_start ()))
     = Inr [1, 2, 3, 4]
   \<and> gh_requests (snd (paging_get_repositories (served github_site) plain_repr github_base_url
        (gh_start ())))
     = [(''/installation/repositories'', Some [(''per_page'', 100)]),
        (''/installation/repositories?per_page=100&page=2'', None),
        (''/installation/repositories?per_page=100&page=3'', None)]"
proof -
  have r: "replies (served github_site) (gh_remote (gh_start ()))
     (first_request # map follow_up [''/installation/repositories?per_page=100&page=2'',
          ''/installation/repositories?per_page=100&page=3''])
   = map Inr [page_one, page_two, page_three]"
    using github_site_replies by (simp add: gh_start_def)
  show ?thesis
    using paging_concatenates_pages [where repr = plain_repr,
        OF github_base_nonempty _ github_pages_examples r]
    by (simp add: gh_start_def first_request_def follow_up_def)
qed

text \<open>
  Claim C5 as stated holds for every number of pages.  With a provider that serves
  102 pages one after the other, the first 101 advertising a next link under the
  base URL and the last with no next link, the result holds the items of the
  first 101 pages only: the item of the last page is missing.
\<close>

theorem paging_truncates_counterexample:
  "chained github_base_url linked_page
   \<and> next_link last_page = None
   \<and> fst (paging_get_repositories scripted plain_repr github_base_url
          (gh_start (replicate 101 linked_page @ [last_page]))) = Inr (replicate 101 7)
   \<and> replicate 101 (7::nat) \<noteq> concat (replicate 101 [7] @ [[9]])"
proof -
  have b: "github_base_url \<noteq> []" by (simp add: github_base_url_def)
  have m: "map repositories_of (replicate 101 linked_page) = map Some (replicate 101 [7])"
    by (simp add: repositories_examples)
  have c: "\<forall>p\<in>set (butlast (replicate 101 linked_page)). chained github_base_url p"
    by (auto dest: in_set_butlastD simp: chained_linked_page)
  have "fst (paging_get_repositories scripted plain_repr github_base_url
          (gh_start (replicate 101 linked_page @ [last_page]))) = Inr (concat (replicate 101 [7]))"
    using paging_get_repositories_scripted [OF b m _ c, where rest = "[last_page]"
        and w = "gh_start (replicate 101 linked_page @ [last_page])" and repr = plain_repr]
    by (simp add: MAX_ITERATIONS_def gh_start_def)
  moreover have "concat (replicate 101 [7::nat]) = replicate 101 7"
    by (simp add: concat_replicate_trivial flip: replicate_append_same) 
  moreover have "length (replicate 101 (7::nat)) \<noteq> length (concat (replicate 101 [7] @ [[9]]))"
    by (simp add: length_concat sum_list_replicate)
  ultimately show ?thesis
    by (auto simp: chained_linked_page next_link_examples)
qed

section \<open>Properties of the Slack traversal\<close>

text \<open>
  Claim C6.  When the pages before page \<open>K\<close> are accepted, hold no match and
  carry a cursor, \<open>K\<close> is at most 100 and page \<open>K\<close> is not accepted
  (\<open>ok\<close> is false or missing), \<open>_find_matching_conversation\<close> returns
  \<open>(None, True)\<close> after exactly \<open>K\<close> requests, reads no further page and logs the
  error of page \<open>K\<close>.  The outcome differs from the one of a traversal that ends
  on a page without a cursor and from the one of a traversal that uses up its 100
  iterations: both return \<open>(None, False)\<close>.
\<close>

theorem provider_rejected_stops:
  assumes "\<forall>p \<in> set ps. turns_page resource_type name p"
    and "length ps < 100"
    and "\<not> truthy_ok (ok bad)"
    and "sl_remote w = ps @ bad # rest"
  shows "fst (find_matching_conversation scripted lm url resource_type name a w) = Inr (None, True)
       \<and> length (sl_requests (snd (find_matching_conversation scripted lm url resource_type name a w)))
           = length (sl_requests w) + Suc (length ps)
       \<and> sl_remote (snd (find_matching_conversation scripted lm url resource_type name a w)) = rest
       \<and> logged (snd (find_matching_conversation scripted lm url resource_type name a w))
           = logged w @ [(lm, error bad)]
       \<and> (\<forall>qs fin rest' w'.
             (\<forall>p \<in> set qs. turns_page resource_type name p) \<and> length qs < 100
             \<and> final_page resource_type name fin \<and> sl_remote w' = qs @ fin # rest' \<longrightarrow>
             fst (find_matching_conversation scripted lm url resource_type name a w')
               = Inr (None, False))
       \<and> (\<forall>qs rest' w'.
             (\<forall>p \<in> set qs. turns_page resource_type name p) \<and> length qs = 100
             \<and> sl_remote w' = qs @ rest' \<longrightarrow>
             fst (find_matching_conversation scripted lm url resource_type name a w')
               = Inr (None, False))"
proof -
  have lt: "length ps < MAX_ITERATIONS" using assms(2) by (simp add: MAX_ITERATIONS_def)
  from find_matching_conversation_rejected [OF assms(1) lt assms(3,4), of lm url a]
  obtain w1 where w1: "find_matching_conversation scripted lm url resource_type name a w
        = (Inr (None, True), w1)" "sl_remote w1 = rest" "traversed url (Suc (length ps)) w w1"
      "logged w1 = logged w @ [(lm, error bad)]" by blast
  have fin: "fst (find_matching_conversation scripted lm url resource_type name a w')
               = Inr (None, False)"
    if "(\<forall>p \<in> set qs. turns_page resource_type name p) \<and> length qs < 100
             \<and> final_page resource_type name fin \<and> sl_remote w' = qs @ fin # rest'"
    for qs fin rest' w'
  proof -
    from that have q: "\<forall>p \<in> set qs. turns_page resource_type name p"
      "length qs < MAX_ITERATIONS" "final_page resource_type name fin"
      "sl_remote w' = qs @ fin # rest'" by (simp_all add: MAX_ITERATIONS_def)
    from find_matching_conversation_final [OF q, of lm url a] show ?thesis by auto
  qed
  have cap: "fst (find_matching_conversation scripted lm url resource_type name a w')
               = Inr (None, False)"
    if "(\<forall>p \<in> set qs. turns_page resource_type name p) \<and> length qs = 100
             \<and> sl_remote w' = qs @ rest'"
    for qs rest' w'
  proof -
    from that have q: "\<forall>p \<in> set qs. turns_page resource_type name p"
      "length qs = MAX_ITERATIONS" "sl_remote w' = qs @ rest'" by (simp_all add: MAX_ITERATIONS_def)
    from find_matching_conversation_capped [OF q, of lm url a] show ?thesis by auto
  qed
  show ?thesis
    using w1 traversed_length [OF w1(3)] fin cap by (simp del: One_nat_def) blast
qed

text \<open>
A rejection on the second page of three.
\<close>

theorem provider_rejected_stops_witness:
  "fst (find_matching_conversation scripted ''rule.slack.channel_list_failed''
          ''https://slack.com/api/channels.list'' ''channels'' ''eng'' 0
          (caller_world [other_channels_page, rejected_page, other_channels_page]))
     = Inr (None, True)
   \<and> length (sl_requests (snd (find_matching_conversation scripted ''rule.slack.channel_list_failed''
          ''https://slack.com/api/channels.list'' ''channels'' ''eng'' 0
          (caller_world [other_channels_page, rejected_page, other_channels_page])))) = 2
   \<and> sl_remote (snd (find_matching_conversation scripted ''rule.slack.channel_list_failed''
          ''https://slack.com/api/channels.list'' ''channels'' ''eng'' 0
          (caller_world [other_channels_page, rejected_page, other_channels_page])))
     = [other_channels_page]"
proof -
  have r: "sl_remote (caller_world [other_channels_page, rejected_page, other_channels_page])
             = [other_channels_page] @ rejected_page # [other_channels_page]"
    and l: "sl_requests (caller_world [other_channels_page, rejected_page, other_channels_page]) = []"
    by (simp_all add: caller_world_def alloc_def slack_start_def)
  have t: "\<forall>p \<in> set [other_channels_page]. turns_page ''channels'' ''eng'' p"
    by (simp add: turns_other_channels_page)
  show ?thesis
    using provider_rejected_stops [OF t _ rejected_page_not_ok r,
        of "''rule.slack.channel_list_failed''" "''https://slack.com/api/channels.list''" 0]
    by (simp add: l)
qed

text \<open>
  Claim C9.  \<open>_find_matching_conversation\<close> changes no cell that was allocated
  before the call, the caller's \<open>original_params\<close> among them: the cursor is
  written to the copy only.  Its first request carries the parameters as the caller
  passed them, and after \<open>get_channel_id\<close> the payload that was handed to the
  three lookups is still the one that was built.
\<close>

theorem original_params_not_mutated:
  "(\<forall>b. b < next_free w \<longrightarrow>
       heap (snd (find_matching_conversation get lm url resource_type name original_params w)) b
         = heap w b)
   \<and> (\<exists>more. sl_requests (snd (find_matching_conversation get lm url resource_type name
                                 original_params w))
         = sl_requests w @ (url, heap w original_params) # more)
   \<and> (md ''access_token'' = Some tok \<longrightarrow>
        heap (snd (get_channel_id get (Some md) name w)) (Suc (next_free w))
          = [(''token'', PStr tok), (''exclude_archived'', PBool False),
             (''exclude_members'', PBool True)])"
proof (intro conjI allI impI)
  fix b assume "b < next_free w"
  then show "heap (snd (find_matching_conversation get lm url resource_type name original_params w)) b
         = heap w b"
    by (simp add: find_matching_conversation_frame)
next
  have "\<exists>more. sl_requests (snd (conversation_loop (Suc 99) get lm url resource_type name
            (Some (next_free w))
            (w\<lparr>heap := (heap w)(next_free w := heap w original_params),
               next_free := Suc (next_free w)\<rparr>)))
         = sl_requests w @ (url, heap w original_params) # more"
    using conversation_loop_first_request [of 99 get lm url resource_type name "next_free w"
      "w\<lparr>heap := (heap w)(next_free w := heap w original_params), next_free := Suc (next_free w)\<rparr>"]
    by simp
  then show "\<exists>more. sl_requests (snd (find_matching_conversation get lm url resource_type name
                                 original_params w))
         = sl_requests w @ (url, heap w original_params) # more"
    by (simp add: find_matching_conversation_def deepcopy_def alloc_def MAX_ITERATIONS_def)
next
  assume "md ''access_token'' = Some tok"
  then show "heap (snd (get_channel_id get (Some md) name w)) (Suc (next_free w))
          = [(''token'', PStr tok), (''exclude_archived'', PBool False),
             (''exclude_members'', PBool True)]"
    using get_channel_id_payload_kept [of md tok get name w] by (simp add: channels_payload_of_def)
qed

text \<open>
The caller's payload at address 0 after a traversal of two pages.
\<close>

theorem original_params_not_mutated_witness:
  "heap (snd (find_matching_conversation scripted ''rule.slack.channel_list_failed''
          ''https://slack.com/api/channels.list'' ''channels'' ''eng'' 0
          (caller_world [other_channels_page, rejected_page]))) 0
     = [(''token'', PStr ''xoxb-1''), (''exclude_archived'', PBool False),
        (''exclude_members'', PBool True)]"
proof -
  have n: "(0::nat) < next_free (caller_world [other_channels_page, rejected_page])"
    and h: "heap (caller_world [other_channels_page, rejected_page]) 0
              = [(''token'', PStr ''xoxb-1''), (''exclude_archived'', PBool False),
                 (''exclude_members'', PBool True)]"
    by (simp_all add: caller_world_def alloc_def slack_start_def channels_payload_of_def)
  show ?thesis
    using original_params_not_mutated [of "caller_world [other_channels_page, rejected_page]"
        scripted "''rule.slack.channel_list_failed''" "''https://slack.com/api/channels.list''"
        "''channels''" "''eng''" 0 Map.empty "''''"] n h
    by simp
qed

section \<open>The iteration cap\<close>

text \<open>
  Claim C1, as amended.  Whatever the provider answers, one call of
  \<open>_find_matching_conversation\<close> sends at most 100 requests, and one call of
  \<open>_paging_get_repositories\<close> sends at most 101: the first request and at most
  100 in the loop.  When every page advertises a further page, the loop stops at
  the cap and what was accumulated is returned, without an error: the items of
  101 pages for GitHub, \<open>(None, False)\<close> for Slack.
\<close>

theorem page_fetch_cap:
  "length (gh_requests (snd (paging_get_repositories get repr base_url gw)))
     \<le> length (gh_requests gw) + 101
   \<and> length (sl_requests (snd (find_matching_conversation sget lm url resource_type name a sw)))
     \<le> length (sl_requests sw) + 100
   \<and> (base_url \<noteq> [] \<and> map repositories_of pages = map Some itemss
        \<and> (\<forall>p \<in> set pages. chained base_url p) \<and> length pages = 101
        \<and> gh_remote gw' = pages @ rest \<longrightarrow>
        fst (paging_get_repositories scripted repr base_url gw') = Inr (concat itemss)
        \<and> length (gh_requests (snd (paging_get_repositories scripted repr base_url gw')))
            = length (gh_requests gw') + 101)
   \<and> ((\<forall>p \<in> set ps. turns_page resource_type name p) \<and> length ps = 100
        \<and> sl_remote sw' = ps @ rest' \<longrightarrow>
        fst (find_matching_conversation scripted lm url resource_type name a sw') = Inr (None, False)
        \<and> length (sl_requests (snd (find_matching_conversation scripted lm url resource_type name a sw')))
            = length (sl_requests sw') + 100)"
proof (intro conjI impI)
  show "length (gh_requests (snd (paging_get_repositories get repr base_url gw)))
     \<le> length (gh_requests gw) + 101"
    using paging_get_repositories_bound [of get repr base_url gw] by (simp add: MAX_ITERATIONS_def)
  show "length (sl_requests (snd (find_matching_conversation sget lm url resource_type name a sw)))
     \<le> length (sl_requests sw) + 100"
    using find_matching_conversation_bound [of sget lm url resource_type name a sw]
    by (simp add: MAX_ITERATIONS_def)
next
  assume h: "base_url \<noteq> [] \<and> map repositories_of pages = map Some itemss
        \<and> (\<forall>p \<in> set pages. chained base_url p) \<and> length pages = 101
        \<and> gh_remote gw' = pages @ rest"
  then have b: "base_url \<noteq> []" and m: "map repositories_of pages = map Some itemss"
    and ne: "pages \<noteq> []" and c: "\<forall>p \<in> set (butlast pages). chained base_url p"
    and l: "\<not> chained base_url (last pages) \<or> length pages = Suc MAX_ITERATIONS"
    and le: "length pages \<le> Suc MAX_ITERATIONS" and r: "gh_remote gw' = pages @ rest"
    by (auto simp: MAX_ITERATIONS_def dest: in_set_butlastD)
  from paging_get_repositories_scripted [OF b m ne c l le r, of repr] h
  show "fst (paging_get_repositories scripted repr base_url gw') = Inr (concat itemss)"
    and "length (gh_requests (snd (paging_get_repositories scripted repr base_url gw')))
            = length (gh_requests gw') + 101"
    by simp_all
next
  assume h: "(\<forall>p \<in> set ps. turns_page resource_type name p) \<and> length ps = 100
        \<and> sl_remote sw' = ps @ rest'"
  then have q: "\<forall>p \<in> set ps. turns_page resource_type name p"
      "length ps = MAX_ITERATIONS" "sl_remote sw' = ps @ rest'" by (simp_all add: MAX_ITERATIONS_def)
  from find_matching_conversation_capped [OF q, of lm url a]
  obtain w1 where w1: "find_matching_conversation scripted lm url resource_type name a sw'
      = (Inr (None, False), w1)" "traversed url MAX_ITERATIONS sw' w1" by blast
  show "fst (find_matching_conversation scripted lm url resource_type name a sw') = Inr (None, False)"
    and "length (sl_requests (snd (find_matching_conversation scripted lm url resource_type name a sw')))
            = length (sl_requests sw') + 100"
    using w1 traversed_length [OF w1(2)] by (simp_all add: MAX_ITERATIONS_def)
qed

text \<open>
Providers that always advertise a further page.
\<close>

theorem page_fetch_cap_witness:
  "fst (paging_get_repositories scripted plain_repr github_base_url
          (gh_start (replicate 101 linked_page @ [last_page]))) = Inr (replicate 101 7)
   \<and> length (gh_requests (snd (paging_get_repositories scripted plain_repr github_base_url
          (gh_start (replicate 101 linked_page @ [last_page]))))) = 101
   \<and> fst (find_matching_conversation scripted ''rule.slack.channel_list_failed''
          ''https://slack.com/api/channels.list'' ''channels'' ''eng'' 0
          (caller_world (replicate 100 other_channels_page @ [rejected_page]))) = Inr (None, False)
   \<and> length (sl_requests (snd (find_matching_conversation scripted ''rule.slack.channel_list_failed''
          ''https://slack.com/api/channels.list'' ''channels'' ''eng'' 0
          (caller_world (replicate 100 other_channels_page @ [rejected_page]))))) = 100"
proof -
  have g: "gh_remote (gh_start (replicate 101 linked_page @ [last_page]))
             = replicate 101 linked_page @ [last_page]"
    and gl: "gh_requests (gh_start (replicate 101 linked_page @ [last_page])) = []"
    by (simp_all add: gh_start_def)
  have s: "sl_remote (caller_world (replicate 100 other_channels_page @ [rejected_page]))
             = replicate 100 other_channels_page @ [rejected_page]"
    and sl: "sl_requests (caller_world (replicate 100 other_channels_page @ [rejected_page])) = []"
    by (simp_all add: caller_world_def alloc_def slack_start_def)
  have t: "\<forall>p \<in> set (replicate 100 other_channels_page). turns_page ''channels'' ''eng'' p"
    by (simp add: turns_other_channels_page)
  show ?thesis
    using page_fetch_cap [where base_url = github_base_url and pages = "replicate 101 linked_page"
        and itemss = "replicate 101 [7]" and rest = "[last_page]"
        and gw' = "gh_start (replicate 101 linked_page @ [last_page])" and repr = plain_repr
        and ps = "replicate 100 other_channels_page" and resource_type = "''channels''"
        and name = "''eng''" and rest' = "[rejected_page]"
        and sw' = "caller_world (replicate 100 other_channels_page @ [rejected_page])"
        and lm = "''rule.slack.channel_list_failed''"
        and url = "''https://slack.com/api/channels.list''" and a = 0
        and get = scripted and gw = "gh_start (replicate 101 linked_page @ [last_page])"
        and sget = scripted
        and sw = "caller_world (replicate 100 other_channels_page @ [rejected_page])"]
      g s t
    by (simp add: github_base_nonempty replicate_linked_pages gl sl repositories_examples
        chained_linked_page)
qed

text \<open>
  Claim C1 as stated bounds the GitHub enumeration by 100 requests.  With a
  provider whose pages all link on, it sends 101.
\<close>

theorem github_101_requests_counterexample:
  "\<not> length (gh_requests (snd (paging_get_repositories scripted plain_repr github_base_url
          (gh_start (replicate 101 linked_page @ [last_page]))))) \<le> 100"
proof -
  have c: "\<forall>p\<in>set (butlast (replicate 101 linked_page)). chained github_base_url p"
    by (auto dest: in_set_butlastD simp: chained_linked_page)
  have "length (gh_requests (snd (paging_get_repositories scripted plain_repr github_base_url
          (gh_start (replicate 101 linked_page @ [last_page]))))) = 101"
    using paging_get_repositories_scripted [OF github_base_nonempty replicate_linked_pages(1) _ c,
        where rest = "[last_page]"
        and w = "gh_start (replicate 101 linked_page @ [last_page])" and repr = plain_repr]
    by (simp add: MAX_ITERATIONS_def gh_start_def)
  then show ?thesis by simp
qed

section \<open>Properties of the lookup chain\<close>







section \<open>Properties of the access token\<close>

text \<open>
  Claim C2, as amended.  \<open>get_token\<close> reads the stored token and expiry.  When
  the stored expiry parses and is there whenever the token is there, the refresh
  decision is: the token is missing or empty, or the expiry is strictly earlier
  than now, or \<open>force_refresh\<close> is set.  When it holds, exactly one minting
  request is sent, and if the minting answer carries a token and an expiry in the
  \<open>Z\<close> format, the new token is returned and the pair is written to the
  metadata and saved once.  When it does not hold, the cached token is returned
  and nothing changes: no minting request, no save.  In particular at the instant
  now = expiry the cached token is kept.
\<close>

theorem get_token_refresh_rule:
  assumes "load_expires_at w = Inr exp"
    and "truthy_token (metadata w ''access_token'') \<longrightarrow> exp \<noteq> None"
  shows "((\<not> truthy_token (metadata w ''access_token'')
            \<or> (case exp of None \<Rightarrow> False | Some e \<Rightarrow> dt_less e now) \<or> force_refresh) \<longrightarrow>
            length (posts (snd (get_token post jwt now force_refresh w))) = Suc (length (posts w))
          \<and> (\<forall>res w1 t s d.
                create_token post jwt w = (Inr res, w1) \<and> res ''token'' = Some t
                \<and> res ''expires_at'' = Some s \<and> strptime s ''%Y-%m-%dT%H:%M:%SZ'' = Inr d \<longrightarrow>
                get_token post jwt now force_refresh w =
                  (Inr t, w1\<lparr>metadata := (metadata w)(''access_token'' \<mapsto> t, ''expires_at'' \<mapsto> isoformat d),
                            saved := saved w @ [(metadata w)(''access_token'' \<mapsto> t,
                                                             ''expires_at'' \<mapsto> isoformat d)]\<rparr>)))
       \<and> (\<not> (\<not> truthy_token (metadata w ''access_token'')
            \<or> (case exp of None \<Rightarrow> False | Some e \<Rightarrow> dt_less e now) \<or> force_refresh) \<longrightarrow>
            (\<exists>t. metadata w ''access_token'' = Some t
                \<and> get_token post jwt now force_refresh w = (Inr t, w)))
       \<and> (truthy_token (metadata w ''access_token'') \<and> exp = Some now \<and> \<not> force_refresh \<longrightarrow>
            snd (get_token post jwt now force_refresh w) = w)"
proof (intro conjI impI allI)
  assume r: "\<not> truthy_token (metadata w ''access_token'')
            \<or> (case exp of None \<Rightarrow> False | Some e \<Rightarrow> dt_less e now) \<or> force_refresh"
  have nr: "needs_refresh (metadata w ''access_token'') exp now force_refresh = Inr True"
    using r assms(2) by (auto simp: needs_refresh_def split: option.splits)
  have g: "get_token post jwt now force_refresh w = refresh_token post jwt w"
    by (rule get_token_refreshes [OF assms(1) nr])
  show "length (posts (snd (get_token post jwt now force_refresh w))) = Suc (length (posts w))"
    by (simp add: g refresh_token_posts)
  fix res w1 t s d
  assume "create_token post jwt w = (Inr res, w1) \<and> res ''token'' = Some t
                \<and> res ''expires_at'' = Some s \<and> strptime s ''%Y-%m-%dT%H:%M:%SZ'' = Inr d"
  then have a: "create_token post jwt w = (Inr res, w1)" "res ''token'' = Some t"
    "res ''expires_at'' = Some s" "strptime s ''%Y-%m-%dT%H:%M:%SZ'' = Inr d" by simp_all
  show "get_token post jwt now force_refresh w =
                  (Inr t, w1\<lparr>metadata := (metadata w)(''access_token'' \<mapsto> t, ''expires_at'' \<mapsto> isoformat d),
                            saved := saved w @ [(metadata w)(''access_token'' \<mapsto> t,
                                                             ''expires_at'' \<mapsto> isoformat d)]\<rparr>)"
    unfolding g by (rule refresh_token_minted [OF a])
next
  assume n: "\<not> (\<not> truthy_token (metadata w ''access_token'')
            \<or> (case exp of None \<Rightarrow> False | Some e \<Rightarrow> dt_less e now) \<or> force_refresh)"
  then obtain t where t: "metadata w ''access_token'' = Some t" "t \<noteq> []"
    by (auto simp: truthy_token_def split: option.splits)
  from n assms(2) obtain e where e: "exp = Some e" "\<not> dt_less e now" by (cases exp) auto
  have l: "load_expires_at w = Inr (Some e)" using assms(1) e by simp
  have nf: "\<not> force_refresh" using n by simp
  have "get_token post jwt now force_refresh w = (Inr t, w)"
    by (rule get_token_cached [OF l t e(2) nf])
  with t show "\<exists>t. metadata w ''access_token'' = Some t
                \<and> get_token post jwt now force_refresh w = (Inr t, w)" by blast
next
  assume b: "truthy_token (metadata w ''access_token'') \<and> exp = Some now \<and> \<not> force_refresh"
  then obtain t where t: "metadata w ''access_token'' = Some t" "t \<noteq> []"
    by (auto simp: truthy_token_def split: option.splits)
  have l: "load_expires_at w = Inr (Some now)" using assms(1) b by simp
  have nf: "\<not> force_refresh" using b by simp
  have "get_token post jwt now force_refresh w = (Inr t, w)"
    by (rule get_token_cached [OF l t dt_less_irrefl nf])
  then show "snd (get_token post jwt now force_refresh w) = w" by simp
qed

text \<open>
  The rule at a token that expired at noon, asked at one o'clock: one minting
  request, the new token, the new expiry stored.
\<close>

theorem get_token_refresh_rule_witness:
  "fst (get_token scripted ''assertion'' one_pm False (integration_with expiring_at_noon)) = Inr ''v1.new''
   \<and> length (posts (snd (get_token scripted ''assertion'' one_pm False
                            (integration_with expiring_at_noon)))) = 1
   \<and> metadata (snd (get_token scripted ''assertion'' one_pm False
                            (integration_with expiring_at_noon))) ''expires_at''
        = Some ''2018-07-01T13:00:00''"
proof -
  have h2: "truthy_token (metadata (integration_with expiring_at_noon) ''access_token'') \<longrightarrow>
            Some noon \<noteq> None" by simp
  have less: "dt_less noon one_pm" by (simp add: dt_less_def noon_def one_pm_def)
  have tok: "mint_response ''token'' = Some ''v1.new''"
    and ex: "mint_response ''expires_at'' = Some ''2018-07-01T13:00:00Z''"
    by (simp_all add: mint_response_def)
  show ?thesis
    using get_token_refresh_rule [OF load_noon h2, of one_pm False scripted "''assertion''"]
      less create_token_example [of expiring_at_noon] tok ex strptime_one_pm
    by (simp add: isoformat_one_pm integration_with_def)
qed

text \<open>
  Claim C2 as stated says that a refresh occurs at the instant now = expiry.  With
  a token expiring at noon and the clock at noon, \<open>get_token\<close> returns the old
  token and leaves the integration as it was: no minting request was sent.
\<close>

theorem get_token_boundary_counterexample:
  "get_token scripted ''assertion'' noon False (integration_with expiring_at_noon)
     = (Inr ''v1.old'', integration_with expiring_at_noon)
   \<and> posts (integration_with expiring_at_noon) = []"
proof
  show "get_token scripted ''assertion'' noon False (integration_with expiring_at_noon)
     = (Inr ''v1.old'', integration_with expiring_at_noon)"
    by (rule get_token_cached [OF load_noon])
       (simp_all add: integration_with_def expiring_at_noon_def dt_less_irrefl)
  show "posts (integration_with expiring_at_noon) = []"
    by (simp add: integration_with_def)
qed

text \<open>
  Claim C3 says that a token stored without an expiry is refreshed without an
  error.  The code parses the expiry only when it is there, and then compares
  \<open>None\<close> with the clock: \<open>get_token\<close> ends with \<open>TypeError\<close>, before any
  minting request and with nothing changed.
\<close>

theorem get_token_missing_expiry_raises:
  "get_token scripted ''assertion'' noon False (integration_with without_expiry)
     = (Inl TypeError, integration_with without_expiry)"
  by (rule get_token_no_expiry)
     (simp_all add: integration_with_def without_expiry_def truthy_token_def)

text \<open>
  Claim C10.  When the minting answer carries an expiry that
  \<open>'%Y-%m-%dT%H:%M:%SZ'\<close> accepts as the datetime \<open>d\<close>, the refresh path
  stores \<open>d.isoformat()\<close>, the format \<open>'%Y-%m-%dT%H:%M:%S'\<close> of the read
  path accepts what was stored, and reading the stored expiry back gives \<open>d\<close>
  again, without an error.
\<close>

theorem persisted_expiry_reloads:
  assumes "create_token post jwt w = (Inr res, w1)" "res ''token'' = Some t"
    "res ''expires_at'' = Some s" "strptime s ''%Y-%m-%dT%H:%M:%SZ'' = Inr d"
  shows "strptime (isoformat d) ''%Y-%m-%dT%H:%M:%S'' = Inr d
       \<and> metadata (snd (refresh_token post jwt w)) ''expires_at'' = Some (isoformat d)
       \<and> load_expires_at (snd (refresh_token post jwt w)) = Inr (Some d)"
proof -
  from strptime_valid [OF assms(4)] have v: "valid_datetime d" "microsecond d = 0" by simp_all
  have rt: "strptime (isoformat d) ''%Y-%m-%dT%H:%M:%S'' = Inr d"
    by (rule strptime_isoformat [OF v])
  have md: "metadata (snd (refresh_token post jwt w)) ''expires_at'' = Some (isoformat d)"
    by (simp add: refresh_token_minted [OF assms])
  show ?thesis using rt md by (simp add: load_expires_at_def)
qed

text \<open>The round trip at an expiry of one o'clock.\<close>

theorem persisted_expiry_reloads_witness:
  "strptime (isoformat one_pm) ''%Y-%m-%dT%H:%M:%S'' = Inr one_pm
   \<and> metadata (snd (refresh_token scripted ''assertion'' (integration_with expiring_at_noon)))
        ''expires_at'' = Some ''2018-07-01T13:00:00''
   \<and> load_expires_at (snd (refresh_token scripted ''assertion'' (integration_with expiring_at_noon)))
        = Inr (Some one_pm)"
proof -
  have tok: "mint_response ''token'' = Some ''v1.new''"
    and ex: "mint_response ''expires_at'' = Some ''2018-07-01T13:00:00Z''"
    by (simp_all add: mint_response_def)
  show ?thesis
    using persisted_expiry_reloads [OF create_token_example tok ex strptime_one_pm,
        of expiring_at_noon]
    by (simp add: isoformat_one_pm)
qed

end
